theory Spec2Isabelle
  imports Complex_Main "HOL-Library.Word"
begin

unbundle bit_operations_syntax

section \<open>Cron evaluator (internal/scheduler/scheduler.go, second part)\<close>

subsection \<open>Go library functions used by the parser\<close>

text \<open>
  Go strings are byte sequences: \<^typ>\<open>string\<close>. The library functions below are
  modelled from their documented behaviour.

  \<open>strings.Fields\<close> splits around runs of white space, as \<open>unicode.IsSpace\<close> defines
  it: the six ASCII characters of \<open>isSpace\<close>, and U+0085, U+00A0, U+1680, U+2000 to
  U+200A, U+2028, U+2029, U+202F, U+205F and U+3000, which it reads in their UTF-8
  encoding. \<open>space_width s\<close> is the number of bytes of the white-space character that
  \<open>s\<close> starts with, and 0 when it starts with none. The first byte of each of these
  encodings is never a continuation byte of another character, so looking for them
  byte by byte finds the same characters as decoding does; any other byte, well
  encoded or not, belongs to a field.
\<close>

definition isSpace :: "char \<Rightarrow> bool" where
  "isSpace c = (c = CHR '' '' \<or> c = CHR 0x09 \<or> c = CHR 0x0A \<or> c = CHR 0x0B
                \<or> c = CHR 0x0C \<or> c = CHR 0x0D)"

definition space_width :: "string \<Rightarrow> nat" where
  "space_width s =
     (case s of
        [] \<Rightarrow> 0
      | c # r \<Rightarrow>
          if isSpace c then 1
          else if c = CHR 0xC2 \<and> (take 1 r = [CHR 0x85] \<or> take 1 r = [CHR 0xA0]) then 2
          else if c = CHR 0xE1 \<and> take 2 r = [CHR 0x9A, CHR 0x80] then 3
          else if c = CHR 0xE2 \<and> take 1 r = [CHR 0x80]
                  \<and> (case drop 1 r of
                        [] \<Rightarrow> False
                      | b # r' \<Rightarrow> (0x80 \<le> (of_char b :: int) \<and> (of_char b :: int) \<le> 0x8A)
                                  \<or> b = CHR 0xA8 \<or> b = CHR 0xA9 \<or> b = CHR 0xAF) then 3
          else if c = CHR 0xE2 \<and> take 2 r = [CHR 0x81, CHR 0x9F] then 3
          else if c = CHR 0xE3 \<and> take 2 r = [CHR 0x80, CHR 0x80] then 3
          else 0)"

text \<open>\<open>fields_from s cur\<close>: the fields of \<open>s\<close>, with \<open>cur\<close> the field being read.\<close>

fun fields_from :: "string \<Rightarrow> string \<Rightarrow> string list" where
  "fields_from [] cur = (if cur = [] then [] else [cur])"
| "fields_from (c # cs) cur =
     (if space_width (c # cs) = 0 then fields_from cs (cur @ [c])
      else (if cur = [] then [] else [cur])
             @ fields_from (drop (space_width (c # cs) - 1) cs) [])"

definition Fields :: "string \<Rightarrow> string list" where
  "Fields s = fields_from s []"

text \<open>\<open>strings.Split(s, sep)\<close> for a one-byte separator: always at least one piece.\<close>

fun Split :: "char \<Rightarrow> string \<Rightarrow> string list" where
  "Split sep [] = [[]]"
| "Split sep (c # cs) =
     (if c = sep then [] # Split sep cs
      else (case Split sep cs of [] \<Rightarrow> [[c]] | w # ws \<Rightarrow> (c # w) # ws))"

text \<open>\<open>strings.SplitN(s, sep, 2)\<close> for a one-byte separator: split at the first one.\<close>

definition SplitN2 :: "char \<Rightarrow> string \<Rightarrow> string list" where
  "SplitN2 sep s =
     (if sep \<in> set s
      then [takeWhile (\<lambda>c. c \<noteq> sep) s, tl (dropWhile (\<lambda>c. c \<noteq> sep) s)]
      else [s])"

definition HasPrefix :: "string \<Rightarrow> string \<Rightarrow> bool" where
  "HasPrefix s p = (length p \<le> length s \<and> take (length p) s = p)"

definition Contains :: "string \<Rightarrow> char \<Rightarrow> bool" where
  "Contains s c = (c \<in> set s)"

text \<open>
  Go's \<open>int\<close> is 64 bits wide here: an \<^typ>\<open>int\<close> kept between -2^63 and 2^63 - 1, with
  the wrap-around of \<open>+\<close> written out.
\<close>

definition wrap64 :: "int \<Rightarrow> int" where
  "wrap64 x = (x + 2 ^ 63) mod 2 ^ 64 - 2 ^ 63"

definition isDigit :: "char \<Rightarrow> bool" where
  "isDigit c = (48 \<le> (of_char c :: int) \<and> (of_char c :: int) \<le> 57)"

fun digits_value :: "string \<Rightarrow> int \<Rightarrow> int" where
  "digits_value [] n = n"
| "digits_value (c # cs) n = digits_value cs (n * 10 + ((of_char c :: int) - 48))"

text \<open>
  \<open>strconv.Atoi\<close>: an optional sign, then one or more decimal digits, and a value
  that fits in 64 bits; \<open>None\<close> is the error return (syntax or range).
\<close>

definition Atoi :: "string \<Rightarrow> int option" where
  "Atoi s =
     (let neg = (s \<noteq> [] \<and> hd s = CHR ''-'');
          ds = (if s \<noteq> [] \<and> (hd s = CHR ''-'' \<or> hd s = CHR ''+'') then tl s else s)
      in if ds \<noteq> [] \<and> list_all isDigit ds
         then (let n = digits_value ds 0; v = (if neg then - n else n)
               in if - (2 ^ 63) \<le> v \<and> v < 2 ^ 63 then Some v else None)
         else None)"

subsection \<open>The parser\<close>

datatype part_error =
    InvalidStep string
  | InvalidRange string
  | InvalidRangeStart string
  | InvalidRangeEnd string
  | InvalidValue string
  | OutOfRange int int int

datatype cron_error =
    FieldCount nat
  | MinuteField part_error
  | HourField part_error
  | DayOfMonthField part_error
  | MonthField part_error
  | DayOfWeekField part_error

record CronExpr =
  Minutes :: "int list"
  Hours :: "int list"
  DaysOfMonth :: "int list"
  Months :: "int list"
  DaysOfWeek :: "int list"

text \<open>
  The three loops of \<open>parsePart\<close>, \<open>for i := lo; i <= hi; i += step { vals = append(vals, i) }\<close>.
  The addition wraps, so the loop need not end (with \<open>hi\<close> = 2^63 - 1 it never does):
  \<open>None\<close> is "does not return".
\<close>

partial_function (option) count_up :: "int \<Rightarrow> int \<Rightarrow> int \<Rightarrow> int list \<Rightarrow> int list option" where
  "count_up i hi step vals =
     (if i \<le> hi then count_up (wrap64 (i + step)) hi step (vals @ [i]) else Some vals)"

declare count_up.simps [code]

definition parsePart :: "string \<Rightarrow> int \<Rightarrow> int \<Rightarrow> (part_error + int list) option" where
  "parsePart part mn mx =
     (if HasPrefix part ''*/'' then
        (case Atoi (drop 2 part) of
           None \<Rightarrow> Some (Inl (InvalidStep part))
         | Some step \<Rightarrow>
             if step \<le> 0 then Some (Inl (InvalidStep part))
             else map_option Inr (count_up mn mx step []))
      else if part = ''*'' then map_option Inr (count_up mn mx 1 [])
      else if Contains part (CHR ''-'') then
        (let rangeParts = SplitN2 (CHR ''/'') part;
             bounds = SplitN2 (CHR ''-'') (rangeParts ! 0)
         in if length bounds \<noteq> 2 then Some (Inl (InvalidRange part))
            else (case Atoi (bounds ! 0) of
                    None \<Rightarrow> Some (Inl (InvalidRangeStart (bounds ! 0)))
                  | Some lo \<Rightarrow>
                     (case Atoi (bounds ! 1) of
                        None \<Rightarrow> Some (Inl (InvalidRangeEnd (bounds ! 1)))
                      | Some hi \<Rightarrow>
                         (if length rangeParts = 2 then
                            (case Atoi (rangeParts ! 1) of
                               None \<Rightarrow> Some (Inl (InvalidStep (rangeParts ! 1)))
                             | Some step \<Rightarrow>
                                 if step \<le> 0 then Some (Inl (InvalidStep (rangeParts ! 1)))
                                 else map_option Inr (count_up lo hi step []))
                          else map_option Inr (count_up lo hi 1 [])))))
      else (case Atoi part of
              None \<Rightarrow> Some (Inl (InvalidValue part))
            | Some val \<Rightarrow>
                if val < mn \<or> val > mx then Some (Inl (OutOfRange val mn mx))
                else Some (Inr [val])))"

text \<open>The loop of \<open>parseField\<close> over the comma-separated parts, \<open>result\<close> accumulating.\<close>

fun parseParts :: "string list \<Rightarrow> int \<Rightarrow> int \<Rightarrow> int list \<Rightarrow> (part_error + int list) option" where
  "parseParts [] mn mx result = Some (Inr result)"
| "parseParts (part # parts) mn mx result =
     (case parsePart part mn mx of
        None \<Rightarrow> None
      | Some (Inl err) \<Rightarrow> Some (Inl err)
      | Some (Inr vals) \<Rightarrow> parseParts parts mn mx (result @ vals))"

definition parseField :: "string \<Rightarrow> int \<Rightarrow> int \<Rightarrow> (part_error + int list) option" where
  "parseField field mn mx = parseParts (Split (CHR '','') field) mn mx []"

definition ParseCron :: "string \<Rightarrow> (cron_error + CronExpr) option" where
  "ParseCron expr =
     (let fields = Fields expr
      in if length fields \<noteq> 5 then Some (Inl (FieldCount (length fields)))
         else
          (case parseField (fields ! 0) 0 59 of
             None \<Rightarrow> None
           | Some (Inl err) \<Rightarrow> Some (Inl (MinuteField err))
           | Some (Inr minutes) \<Rightarrow>
          (case parseField (fields ! 1) 0 23 of
             None \<Rightarrow> None
           | Some (Inl err) \<Rightarrow> Some (Inl (HourField err))
           | Some (Inr hours) \<Rightarrow>
          (case parseField (fields ! 2) 1 31 of
             None \<Rightarrow> None
           | Some (Inl err) \<Rightarrow> Some (Inl (DayOfMonthField err))
           | Some (Inr doms) \<Rightarrow>
          (case parseField (fields ! 3) 1 12 of
             None \<Rightarrow> None
           | Some (Inl err) \<Rightarrow> Some (Inl (MonthField err))
           | Some (Inr months) \<Rightarrow>
          (case parseField (fields ! 4) 0 6 of
             None \<Rightarrow> None
           | Some (Inl err) \<Rightarrow> Some (Inl (DayOfWeekField err))
           | Some (Inr dows) \<Rightarrow>
               Some (Inr \<lparr>Minutes = minutes, Hours = hours, DaysOfMonth = doms,
                          Months = months, DaysOfWeek = dows\<rparr>)))))))"

subsection \<open>Matching\<close>

text \<open>
  A \<open>time.Time\<close> is represented by its instant and by what its accessors
  \<open>Minute()\<close>, \<open>Hour()\<close>, \<open>Day()\<close>, \<open>Month()\<close> and \<open>Weekday()\<close> return
  (Sunday is 0); \<open>valid_time\<close> gives the ranges the accessors stay in.
\<close>

record Time =
  UnixNano :: int
  Minute :: int
  Hour :: int
  Day :: int
  Month :: int
  Weekday :: int

definition valid_time :: "Time \<Rightarrow> bool" where
  "valid_time t = (0 \<le> Minute t \<and> Minute t \<le> 59 \<and> 0 \<le> Hour t \<and> Hour t \<le> 23
     \<and> 1 \<le> Day t \<and> Day t \<le> 31 \<and> 1 \<le> Month t \<and> Month t \<le> 12
     \<and> 0 \<le> Weekday t \<and> Weekday t \<le> 6)"

fun contains :: "int list \<Rightarrow> int \<Rightarrow> bool" where
  "contains [] v = False"
| "contains (val # vals) v = (if val = v then True else contains vals v)"

definition Matches :: "CronExpr \<Rightarrow> Time \<Rightarrow> bool" where
  "Matches c t = (contains (Minutes c) (Minute t) \<and> contains (Hours c) (Hour t)
     \<and> contains (DaysOfMonth c) (Day t) \<and> contains (Months c) (Month t)
     \<and> contains (DaysOfWeek c) (Weekday t))"

section \<open>Telemetry collector (package stats)\<close>

subsection \<open>CPU percentage\<close>

type_synonym uint64 = "64 word"
type_synonym int64 = "64 word"

record cpuStats =
  TotalUsage :: uint64
  SystemCPUUsage :: uint64
  OnlineCPUs :: uint64

record memoryStats =
  Usage :: uint64
  Limit :: uint64

record networkStats =
  RxBytes :: uint64
  TxBytes :: uint64

record dockerStatsJSON =
  CPUStats :: cpuStats
  PreCPUStats :: cpuStats
  MemoryStats :: memoryStats
  Networks :: "(string \<times> networkStats) list"

text \<open>
  \<open>float64(x)\<close> of an unsigned 64-bit \<open>x\<close>, and the \<open>float64\<close> arithmetic after it, are
  modelled by the real numbers they approximate: rounding is left out. The difference
  of the two counters is taken in \<open>uint64\<close>, before the conversion, and wraps.
\<close>

definition float64 :: "uint64 \<Rightarrow> real" where
  "float64 x = real (unat x)"

definition calculateCPUPercent :: "dockerStatsJSON \<Rightarrow> real" where
  "calculateCPUPercent stats =
     (let cpuDelta = float64 (TotalUsage (CPUStats stats) - TotalUsage (PreCPUStats stats));
          systemDelta = float64 (SystemCPUUsage (CPUStats stats) - SystemCPUUsage (PreCPUStats stats))
      in if systemDelta \<le> 0 \<or> cpuDelta \<le> 0 then 0
         else (let cpus0 = float64 (OnlineCPUs (CPUStats stats));
                   cpus = (if cpus0 = 0 then 1 else cpus0)
               in (cpuDelta / systemDelta) * cpus * 100))"

subsection \<open>Samples, channels and the collector\<close>

record Stats =
  ID :: int64
  ServerID :: string
  CPUPercent :: real
  MemoryBytes :: int64
  MemoryLimit :: int64
  DiskBytes :: int64
  NetworkRx :: int64
  NetworkTx :: int64
  RecordedAt :: string

text \<open>
  A \<open>chan *Stats\<close> is an address (a number) into a store of buffers. Every channel of
  the collector is made by \<open>make(chan *Stats, 1)\<close>: its buffer holds at most one sample.
  \<open>Unsubscribe\<close>, the only operation that closes a channel, is not part of this
  development, so every channel here is open, and no goroutine is receiving while
  \<open>collect\<close> runs.

  A context made by \<open>context.WithCancel\<close> is a number too; \<open>cancel\<close> holds the context
  whose cancel function the collector has stored, \<open>polling\<close> the contexts of the polling
  goroutines that \<open>Start\<close> has launched, \<open>cancelled\<close> the contexts cancelled so far.
\<close>

record Collector =
  latest :: "string \<Rightarrow> Stats option"
  listeners :: "string \<Rightarrow> nat list"
  cancel :: "nat option"
  chans :: "nat \<Rightarrow> Stats list"
  next_chan :: nat
  polling :: "nat list"
  cancelled :: "nat list"
  next_ctx :: nat

definition NewCollector :: Collector where
  "NewCollector = \<lparr>latest = (\<lambda>_. None), listeners = (\<lambda>_. []), cancel = None,
     chans = (\<lambda>_. []), next_chan = 0, polling = [], cancelled = [], next_ctx = 0\<rparr>"

text \<open>
  \<open>Start\<close> makes a context, stores its cancel function over whatever was stored, and
  launches the polling goroutine on that context; it returns without waiting for it.
\<close>

definition Start :: "Collector \<Rightarrow> Collector" where
  "Start c = c\<lparr>cancel := Some (next_ctx c), polling := polling c @ [next_ctx c],
                next_ctx := Suc (next_ctx c)\<rparr>"

definition Stop :: "Collector \<Rightarrow> Collector" where
  "Stop c = (case cancel c of None \<Rightarrow> c | Some k \<Rightarrow> c\<lparr>cancelled := k # cancelled c\<rparr>)"

text \<open>The polling goroutines that go on polling: those whose context is not cancelled.\<close>

definition running_loops :: "Collector \<Rightarrow> nat list" where
  "running_loops c = filter (\<lambda>k. k \<notin> set (cancelled c)) (polling c)"

definition Subscribe :: "Collector \<Rightarrow> string \<Rightarrow> nat \<times> Collector" where
  "Subscribe c serverID =
     (let ch = next_chan c
      in (ch, c\<lparr>chans := (chans c)(ch := []), next_chan := Suc ch,
                 listeners := (listeners c)(serverID := listeners c serverID @ [ch])\<rparr>))"

text \<open>Receiving from a channel, when its buffer holds a sample.\<close>

definition receive :: "Collector \<Rightarrow> nat \<Rightarrow> (Stats \<times> Collector) option" where
  "receive c ch = (case chans c ch of [] \<Rightarrow> None
     | v # rest \<Rightarrow> Some (v, c\<lparr>chans := (chans c)(ch := rest)\<rparr>))"

text \<open>
  The servers table, with the columns the collector and the scheduler read
  (\<open>container_id\<close> may be NULL), and what one tick meets outside the program: whether the
  query fails, what the container runtime answers for a container (the request, the
  read of the body and its decoding are one step here), whether an INSERT or the
  clean-up fails, and the clock.
\<close>

record server_row =
  srv_id :: string
  srv_container_id :: "string option"
  srv_status :: string
  srv_updated_at :: "Time option"

record collect_env =
  query_fails :: bool
  ContainerStatsOnce :: "string \<Rightarrow> string + dockerStatsJSON"
  insert_fails :: "Stats \<Rightarrow> bool"
  cleanup_fails :: bool
  now_rfc3339 :: string

record serverInfo =
  info_id :: string
  info_containerID :: string

text \<open>What a tick does outside the collector's memory, in order.\<close>

datatype event =
    LogQueryServers
  | Fetch string string
  | LogFetch string string
  | Insert Stats
  | LogInsert string
  | Cache string Stats
  | Send nat Stats
  | Drop nat Stats
  | Cleanup
  | LogCleanup

definition running_row :: "server_row \<Rightarrow> bool" where
  "running_row r = (srv_status r = ''running''
     \<and> (case srv_container_id r of None \<Rightarrow> False | Some cid \<Rightarrow> cid \<noteq> []))"

text \<open>\<open>SELECT id, container_id FROM servers WHERE status = 'running' AND container_id != ''\<close>\<close>

definition query_running :: "server_row list \<Rightarrow> server_row list" where
  "query_running rows = filter running_row rows"

text \<open>The \<open>rows.Next\<close> loop: a row that does not scan (a NULL column) is skipped.\<close>

fun scan_servers :: "server_row list \<Rightarrow> serverInfo list" where
  "scan_servers [] = []"
| "scan_servers (r # rs) =
     (case srv_container_id r of
        None \<Rightarrow> scan_servers rs
      | Some cid \<Rightarrow> \<lparr>info_id = srv_id r, info_containerID = cid\<rparr> # scan_servers rs)"

definition fetchStats :: "collect_env \<Rightarrow> string \<Rightarrow> string \<Rightarrow> string + Stats" where
  "fetchStats env serverID containerID =
     (case ContainerStatsOnce env containerID of
        Inl err \<Rightarrow> Inl err
      | Inr dockerStats \<Rightarrow>
          Inr \<lparr>ID = 0, ServerID = serverID,
               CPUPercent = calculateCPUPercent dockerStats,
               MemoryBytes = Usage (MemoryStats dockerStats),
               MemoryLimit = Limit (MemoryStats dockerStats),
               DiskBytes = 0,
               NetworkRx = sum_list (map (\<lambda>(_, n). RxBytes n) (Networks dockerStats)),
               NetworkTx = sum_list (map (\<lambda>(_, n). TxBytes n) (Networks dockerStats)),
               RecordedAt = now_rfc3339 env\<rparr>)"

text \<open>
  The fan-out loop: \<open>select { case ch <- stats: default: }\<close> puts the sample into the
  buffer when there is room and does nothing otherwise.
\<close>

fun fanout :: "nat list \<Rightarrow> Stats \<Rightarrow> (nat \<Rightarrow> Stats list) \<times> event list
    \<Rightarrow> (nat \<Rightarrow> Stats list) \<times> event list" where
  "fanout [] stats (cs, evs) = (cs, evs)"
| "fanout (ch # rest) stats (cs, evs) =
     (if length (cs ch) < 1
      then fanout rest stats (cs(ch := cs ch @ [stats]), evs @ [Send ch stats])
      else fanout rest stats (cs, evs @ [Drop ch stats]))"

text \<open>The body of the loop over the servers, and the loop.\<close>

definition collect_one :: "collect_env \<Rightarrow> serverInfo \<Rightarrow> Collector \<times> event list
    \<Rightarrow> Collector \<times> event list" where
  "collect_one env srv st =
     (let c = fst st; evs = snd st @ [Fetch (info_id srv) (info_containerID srv)]
      in case fetchStats env (info_id srv) (info_containerID srv) of
           Inl err \<Rightarrow> (c, evs @ [LogFetch (info_id srv) err])
         | Inr stats \<Rightarrow>
            (let evs1 = evs @ [Insert stats]
                   @ (if insert_fails env stats then [LogInsert (info_id srv)] else []);
                 c1 = c\<lparr>latest := (latest c)(info_id srv \<mapsto> stats)\<rparr>;
                 ls = listeners c1 (info_id srv);
                 (cs, evs2) = fanout ls stats (chans c1, evs1 @ [Cache (info_id srv) stats])
             in (c1\<lparr>chans := cs\<rparr>, evs2)))"

fun collect_servers :: "collect_env \<Rightarrow> serverInfo list \<Rightarrow> Collector \<times> event list
    \<Rightarrow> Collector \<times> event list" where
  "collect_servers env [] st = st"
| "collect_servers env (srv # servers) st = collect_servers env servers (collect_one env srv st)"

definition collect :: "collect_env \<Rightarrow> server_row list \<Rightarrow> Collector \<Rightarrow> Collector \<times> event list" where
  "collect env rows c =
     (if query_fails env then (c, [LogQueryServers])
      else (let servers = scan_servers (query_running rows);
                (c1, evs) = collect_servers env servers (c, [])
            in (c1, evs @ [Cleanup] @ (if cleanup_fails env then [LogCleanup] else []))))"

text \<open>The server an event of a tick is about, when it carries a sample or asks for one.\<close>

fun event_target :: "event \<Rightarrow> string option" where
  "event_target (Fetch sid cid) = Some sid"
| "event_target (Insert stats) = Some (ServerID stats)"
| "event_target (Cache sid stats) = Some sid"
| "event_target (Send ch stats) = Some (ServerID stats)"
| "event_target (Drop ch stats) = Some (ServerID stats)"
| "event_target _ = None"


section \<open>Lifecycle scheduler (internal/scheduler/scheduler.go, first part)\<close>

text \<open>
  The two tables the scheduler reads and writes, with the columns it names. The store
  applies each statement \<open>Exec\<close> hands it: an error of \<open>Exec\<close> itself, which the scheduler
  discards, is not modelled.
\<close>

record schedule_row =
  sch_id :: string
  sch_server_id :: string
  sch_cron_expr :: string
  sch_action :: string
  sch_enabled :: "int option"
  sch_last_run :: "Time option"

record database =
  servers :: "server_row list"
  schedules :: "schedule_row list"

record job =
  scheduleID :: string
  serverID :: string
  cronExpr :: string
  action :: string
  containerID :: string

text \<open>
  What the scheduler meets outside the program, threaded through a world \<open>'w\<close>: the
  clock, whether the query fails, and the answers of the container runtime and of the
  backup service (\<open>None\<close> is success, \<open>Some e\<close> the error \<open>e\<close>).
\<close>

record 'w sched_env =
  Now :: "'w \<Rightarrow> Time \<times> 'w"
  QueryFails :: "'w \<Rightarrow> bool \<times> 'w"
  StartContainer :: "string \<Rightarrow> 'w \<Rightarrow> string option \<times> 'w"
  StopContainer :: "string \<Rightarrow> 'w \<Rightarrow> string option \<times> 'w"
  RestartContainer :: "string \<Rightarrow> 'w \<Rightarrow> string option \<times> 'w"
  BackupCreate :: "string \<Rightarrow> 'w \<Rightarrow> string option \<times> 'w"

datatype log_entry =
    LogQuery
  | LogInvalidCron string string cron_error
  | LogRunning string string string
  | LogUnknownAction string
  | LogFailed string string string

record 'w sched_state =
  db :: database
  world :: 'w
  logs :: "log_entry list"

text \<open>\<open>UPDATE servers SET status = ?, updated_at = ? WHERE id = ?\<close>\<close>

definition update_server_status :: "string \<Rightarrow> Time \<Rightarrow> string \<Rightarrow> database \<Rightarrow> database" where
  "update_server_status status t sid d =
     d\<lparr>servers := map (\<lambda>r. if srv_id r = sid
                              then r\<lparr>srv_status := status, srv_updated_at := Some t\<rparr> else r)
                      (servers d)\<rparr>"




text \<open>\<open>if err == nil { s.db.Exec("UPDATE servers SET status = ...", time.Now(), serverID) }\<close>\<close>

definition record_status :: "'w sched_env \<Rightarrow> string \<Rightarrow> string \<Rightarrow> string option
    \<Rightarrow> 'w sched_state \<Rightarrow> 'w sched_state" where
  "record_status env status sid err st =
     (case err of
        Some e \<Rightarrow> st
      | None \<Rightarrow> (let (t, w) = Now env (world st)
                 in st\<lparr>world := w, db := update_server_status status t sid (db st)\<rparr>))"

text \<open>\<open>if err != nil { log.Printf("scheduler: %s on %s failed: %v", action, serverID, err) }\<close>\<close>

definition log_failed :: "string \<Rightarrow> string \<Rightarrow> string option \<Rightarrow> 'w sched_state \<Rightarrow> 'w sched_state" where
  "log_failed act sid err st =
     (case err of None \<Rightarrow> st | Some e \<Rightarrow> st\<lparr>logs := logs st @ [LogFailed act sid e]\<rparr>)"

definition execute :: "'w sched_env \<Rightarrow> string \<Rightarrow> string \<Rightarrow> string \<Rightarrow> 'w sched_state
    \<Rightarrow> 'w sched_state" where
  "execute env act sid cid st =
     (if act = ''start'' then
        (let (err, w) = StartContainer env cid (world st)
         in log_failed act sid err (record_status env ''running'' sid err (st\<lparr>world := w\<rparr>)))
      else if act = ''stop'' then
        (let (err, w) = StopContainer env cid (world st)
         in log_failed act sid err (record_status env ''exited'' sid err (st\<lparr>world := w\<rparr>)))
      else if act = ''restart'' then
        (let (err, w) = RestartContainer env cid (world st)
         in log_failed act sid err (record_status env ''running'' sid err (st\<lparr>world := w\<rparr>)))
      else if act = ''backup'' then
        (let (err, w) = BackupCreate env sid (world st)
         in log_failed act sid err (st\<lparr>world := w\<rparr>))
      else st\<lparr>logs := logs st @ [LogUnknownAction act]\<rparr>)"



section \<open>Console bridge: the outbound pump of a non-TTY session (internal/api/console.go)\<close>

text \<open>
  The log stream is the bytes it delivers before it ends, and how it ends: at
  end-of-stream or with a read error. \<open>io.ReadFull\<close> fills its buffer whatever the
  sizes of the single reads, so these are not modelled. It returns \<open>io.EOF\<close> when the
  stream ends before the first byte, \<open>io.ErrUnexpectedEOF\<close> when it ends after some
  bytes, and the stream's error when that comes first.
\<close>

type_synonym byte = "8 word"

datatype stream_end = EndOfStream | ReadFails

datatype read_error = EOF | ErrUnexpectedEOF | OtherError

definition ReadFull :: "stream_end \<Rightarrow> byte list \<Rightarrow> nat \<Rightarrow> read_error + byte list \<times> byte list" where
  "ReadFull e bs n =
     (if n \<le> length bs then Inr (take n bs, drop n bs)
      else if e = ReadFails then Inl OtherError
      else if bs = [] then Inl EOF
      else Inl ErrUnexpectedEOF)"

text \<open>\<open>binary.BigEndian.Uint32\<close> of a four-byte slice.\<close>

definition Uint32 :: "byte list \<Rightarrow> 32 word" where
  "Uint32 b = ucast (b ! 3) OR push_bit 8 (ucast (b ! 2)) OR push_bit 16 (ucast (b ! 1))
              OR push_bit 24 (ucast (b ! 0))"

text \<open>
  How the pump ends: silently (\<open>io.EOF\<close>, nothing logged), with a logged header or
  payload read error, or on a failed write to the client.
\<close>

datatype pump_end = Clean | LogHeaderError | LogPayloadError | WriteFailed

text \<open>
  \<open>pump ok e bs sent\<close>: the loop, on a stream with bytes \<open>bs\<close> left and end \<open>e\<close>, after
  the messages \<open>sent\<close>; \<open>ok k\<close> says whether the write of message number \<open>k\<close> succeeds.
\<close>

function pump :: "(nat \<Rightarrow> bool) \<Rightarrow> stream_end \<Rightarrow> byte list \<Rightarrow> byte list list
    \<Rightarrow> byte list list \<times> pump_end" where
  "pump ok e bs sent =
     (case ReadFull e bs 8 of
        Inl err \<Rightarrow> (sent, if err = EOF then Clean else LogHeaderError)
      | Inr (header, rest) \<Rightarrow>
          (let size = unat (Uint32 (drop 4 header))
           in if size = 0 then pump ok e rest sent
              else (case ReadFull e rest size of
                      Inl err \<Rightarrow> (sent, if err = EOF then Clean else LogPayloadError)
                    | Inr (payload, rest') \<Rightarrow>
                        if ok (length sent) then pump ok e rest' (sent @ [payload])
                        else (sent, WriteFailed))))"
  by pat_completeness auto
termination
  by (relation "measure (\<lambda>(ok, e, bs, sent). length bs)")
     (auto simp: ReadFull_def split: if_splits)

text \<open>A frame of the stream: its eight header bytes and its payload.\<close>

definition well_framed :: "byte list \<times> byte list \<Rightarrow> bool" where
  "well_framed f = (length (fst f) = 8 \<and> unat (Uint32 (drop 4 (fst f))) = length (snd f))"

definition frame_bytes :: "(byte list \<times> byte list) list \<Rightarrow> byte list" where
  "frame_bytes fs = concat (map (\<lambda>f. fst f @ snd f) fs)"

definition payloads :: "(byte list \<times> byte list) list \<Rightarrow> byte list list" where
  "payloads fs = filter (\<lambda>p. p \<noteq> []) (map snd fs)"

definition bytes_of :: "string \<Rightarrow> byte list" where
  "bytes_of s = map of_char s"

declare pump.simps [simp del]

section \<open>Predicates of the statements\<close>

text \<open>A byte that starts no white-space character.\<close>

definition field_byte :: "char \<Rightarrow> bool" where
  "field_byte c = (\<not> isSpace c \<and> c \<noteq> CHR 0xC2 \<and> c \<noteq> CHR 0xE1 \<and> c \<noteq> CHR 0xE2
                   \<and> c \<noteq> CHR 0xE3)"

text \<open>Contexts are handed out in order: none in use is the next one.\<close>

definition ctx_fresh :: "Collector \<Rightarrow> bool" where
  "ctx_fresh c = (list_all (\<lambda>k. k < next_ctx c) (polling c)
                  \<and> list_all (\<lambda>k. k < next_ctx c) (cancelled c))"

text \<open>Channels are handed out in order too: none registered is the next one.\<close>

definition chan_fresh :: "Collector \<Rightarrow> bool" where
  "chan_fresh c = (\<forall>sid. list_all (\<lambda>ch. ch < next_chan c) (listeners c sid))"

text \<open>The events of a server whose sample was fetched, before the fan-out.\<close>

definition sample_events :: "collect_env \<Rightarrow> serverInfo \<Rightarrow> Stats \<Rightarrow> event list" where
  "sample_events env srv s =
     [Fetch (info_id srv) (info_containerID srv), Insert s]
       @ (if insert_fails env s then [LogInsert (info_id srv)] else [])
       @ [Cache (info_id srv) s]"

text \<open>A target that the servers table has in running state, with a runtime handle.\<close>

definition running_target :: "server_row list \<Rightarrow> string \<Rightarrow> bool" where
  "running_target rows sid = list_ex (\<lambda>r. srv_id r = sid \<and> running_row r) rows"



section \<open>Example data\<close>

text \<open>
  A servers table with one running target and one stopped one, a runtime that answers
  every request with the same counters and the memory usage \<open>mem\<close>, and the sample
  \<open>fetchStats\<close> makes of that answer for target \<open>a\<close>.
\<close>

definition example_rows :: "server_row list" where
  "example_rows =
     [\<lparr>srv_id = ''a'', srv_container_id = Some ''ca'', srv_status = ''running'',
       srv_updated_at = None\<rparr>,
      \<lparr>srv_id = ''b'', srv_container_id = Some ''cb'', srv_status = ''exited'',
       srv_updated_at = None\<rparr>]"

definition example_stats :: "uint64 \<Rightarrow> dockerStatsJSON" where
  "example_stats mem =
     \<lparr>CPUStats = \<lparr>TotalUsage = 200000000, SystemCPUUsage = 1000000000, OnlineCPUs = 4\<rparr>,
      PreCPUStats = \<lparr>TotalUsage = 0, SystemCPUUsage = 0, OnlineCPUs = 4\<rparr>,
      MemoryStats = \<lparr>Usage = mem, Limit = 4096\<rparr>, Networks = []\<rparr>"

definition example_env :: "uint64 \<Rightarrow> collect_env" where
  "example_env mem =
     \<lparr>query_fails = False, ContainerStatsOnce = (\<lambda>cid. Inr (example_stats mem)),
      insert_fails = (\<lambda>s. False), cleanup_fails = False,
      now_rfc3339 = ''2024-02-29T04:00:00Z''\<rparr>"

definition example_sample :: "uint64 \<Rightarrow> Stats" where
  "example_sample mem =
     \<lparr>ID = 0, ServerID = ''a'', CPUPercent = 80, MemoryBytes = mem, MemoryLimit = 4096,
      DiskBytes = 0, NetworkRx = 0, NetworkTx = 0, RecordedAt = ''2024-02-29T04:00:00Z''\<rparr>"

text \<open>
  A subscriber of target \<open>a\<close> on a new collector, and two ticks after it, the first
  with memory usage 1 and the second with 2, the channel never read: the channel and
  the collector after the second tick.
\<close>

definition example_two_ticks :: "nat \<times> Collector" where
  "example_two_ticks =
     (let (ch, c0) = Subscribe NewCollector ''a'';
          (c1, evs1) = collect (example_env 1) example_rows c0;
          (c2, evs2) = collect (example_env 2) example_rows c1
      in (ch, c2))"

text \<open>
  A runtime, for the scheduler, that refuses the container \<open>down\<close> and serves every
  other one, with a clock that stands still; the world is the number of calls made.
  And a database with one server, stopped, and one enabled schedule that starts it
  every minute.
\<close>

definition example_time :: Time where
  "example_time = \<lparr>UnixNano = 1709179200000000000, Minute = 0, Hour = 4, Day = 29, Month = 2,
     Weekday = 4\<rparr>"

definition example_call :: "string \<Rightarrow> nat \<Rightarrow> string option \<times> nat" where
  "example_call cid w = (if cid = ''down'' then Some ''no such container'' else None, Suc w)"

definition example_sched_env :: "nat sched_env" where
  "example_sched_env =
     \<lparr>Now = (\<lambda>w. (example_time, w)), QueryFails = (\<lambda>w. (False, w)),
      StartContainer = example_call, StopContainer = example_call,
      RestartContainer = example_call, BackupCreate = example_call\<rparr>"

definition example_db :: "string \<Rightarrow> database" where
  "example_db cid =
     \<lparr>servers = [\<lparr>srv_id = ''a'', srv_container_id = Some cid, srv_status = ''exited'',
                   srv_updated_at = None\<rparr>],
      schedules = [\<lparr>sch_id = ''s1'', sch_server_id = ''a'', sch_cron_expr = ''* * * * *'',
                     sch_action = ''start'', sch_enabled = Some 1, sch_last_run = None\<rparr>]\<rparr>"

definition example_state :: "string \<Rightarrow> nat sched_state" where
  "example_state cid = \<lparr>db = example_db cid, world = 0, logs = []\<rparr>"






section \<open>The cron evaluator: results\<close>

lemma contains_iff: "contains vals v \<longleftrightarrow> v \<in> set vals"
  by (induction vals) auto

lemma Matches_iff:
  "Matches c t \<longleftrightarrow> Minute t \<in> set (Minutes c) \<and> Hour t \<in> set (Hours c)
     \<and> Day t \<in> set (DaysOfMonth c) \<and> Month t \<in> set (Months c)
     \<and> Weekday t \<in> set (DaysOfWeek c)"
  by (simp add: Matches_def contains_iff)

lemma parseField_star_hours:
  "parseField ''*'' 0 23 = Some (Inr [0..23])"
  by code_simp

lemma parseField_star_doms:
  "parseField ''*'' 1 31 = Some (Inr [1..31])"
  by code_simp

lemma parseField_star_months:
  "parseField ''*'' 1 12 = Some (Inr [1..12])"
  by code_simp

lemma parseField_star_dows:
  "parseField ''*'' 0 6 = Some (Inr [0..6])"
  by code_simp

lemma parse_every_15:
  "ParseCron ''*/15 * * * *'' = Some (Inr \<lparr>Minutes = [0, 15, 30, 45],
     Hours = [0..23],
     DaysOfMonth = [1..31],
     Months = [1..12], DaysOfWeek = [0..6]\<rparr>)"
  by code_simp

lemma parse_daily_4:
  "ParseCron ''0 4 * * *'' = Some (Inr \<lparr>Minutes = [0], Hours = [4],
     DaysOfMonth = [1..31],
     Months = [1..12], DaysOfWeek = [0..6]\<rparr>)"
  by code_simp


text \<open>
  C5. \<open>Matches\<close> holds exactly when the minute, hour, day of month, month and day of week
  of the timestamp each belong to the corresponding parsed set, all five joined by
  "and". \<open>*/15 * * * *\<close> parses to the minute set 0, 15, 30, 45, and \<open>0 4 * * *\<close> matches a
  timestamp exactly when its hour is 4 and its minute is 0, whatever the date: so it
  matches neither 04:01 nor 03:00.
\<close>

theorem cron_matches_all_five_fields:
  "(Matches c t \<longleftrightarrow> Minute t \<in> set (Minutes c) \<and> Hour t \<in> set (Hours c)
       \<and> Day t \<in> set (DaysOfMonth c) \<and> Month t \<in> set (Months c)
       \<and> Weekday t \<in> set (DaysOfWeek c))
   \<and> (\<exists>c15. ParseCron ''*/15 * * * *'' = Some (Inr c15) \<and> Minutes c15 = [0, 15, 30, 45])
   \<and> (\<exists>c4. ParseCron ''0 4 * * *'' = Some (Inr c4)
          \<and> (\<forall>u. valid_time u \<longrightarrow> (Matches c4 u \<longleftrightarrow> Hour u = 4 \<and> Minute u = 0)))"
proof (intro conjI)
  show "Matches c t \<longleftrightarrow> Minute t \<in> set (Minutes c) \<and> Hour t \<in> set (Hours c)
       \<and> Day t \<in> set (DaysOfMonth c) \<and> Month t \<in> set (Months c)
       \<and> Weekday t \<in> set (DaysOfWeek c)"
    by (rule Matches_iff)
  show "\<exists>c15. ParseCron ''*/15 * * * *'' = Some (Inr c15) \<and> Minutes c15 = [0, 15, 30, 45]"
    by (simp add: parse_every_15)
  let ?c4 = "\<lparr>Minutes = [0], Hours = [4],
     DaysOfMonth = [1..31],
     Months = [1..12], DaysOfWeek = [0..6]\<rparr>"
  have "Matches ?c4 u \<longleftrightarrow> Hour u = 4 \<and> Minute u = 0" if v: "valid_time u" for u
    using v by (auto simp: Matches_iff valid_time_def)
  then show "\<exists>c4. ParseCron ''0 4 * * *'' = Some (Inr c4)
          \<and> (\<forall>u. valid_time u \<longrightarrow> (Matches c4 u \<longleftrightarrow> Hour u = 4 \<and> Minute u = 0))"
    using parse_daily_4 by blast
qed

theorem cron_matches_all_five_fields_witness:
  "\<exists>c4. ParseCron ''0 4 * * *'' = Some (Inr c4)
     \<and> Matches c4 \<lparr>UnixNano = 1709179200000000000, Minute = 0, Hour = 4, Day = 29, Month = 2, Weekday = 4\<rparr>
     \<and> \<not> Matches c4 \<lparr>UnixNano = 1709179260000000000, Minute = 1, Hour = 4, Day = 29, Month = 2, Weekday = 4\<rparr>
     \<and> \<not> Matches c4 \<lparr>UnixNano = 1709175600000000000, Minute = 0, Hour = 3, Day = 29, Month = 2, Weekday = 4\<rparr>"
proof -
  from cron_matches_all_five_fields obtain c4 where
    p: "ParseCron ''0 4 * * *'' = Some (Inr c4)" and
    m: "\<forall>u. valid_time u \<longrightarrow> (Matches c4 u \<longleftrightarrow> Hour u = 4 \<and> Minute u = 0)"
    by blast
  have "Matches c4 \<lparr>UnixNano = 1709179200000000000, Minute = 0, Hour = 4, Day = 29, Month = 2, Weekday = 4\<rparr>"
    using m by (simp add: valid_time_def)
  moreover have "\<not> Matches c4 \<lparr>UnixNano = 1709179260000000000, Minute = 1, Hour = 4, Day = 29, Month = 2, Weekday = 4\<rparr>"
    using m by (simp add: valid_time_def)
  moreover have "\<not> Matches c4 \<lparr>UnixNano = 1709175600000000000, Minute = 0, Hour = 3, Day = 29, Month = 2, Weekday = 4\<rparr>"
    using m by (simp add: valid_time_def)
  ultimately show ?thesis using p by blast
qed

subsection \<open>Ranges\<close>

lemma isDigit_chars:
  "isDigit c \<Longrightarrow> c \<noteq> CHR ''/'' \<and> c \<noteq> CHR ''*'' \<and> c \<noteq> CHR ''-'' \<and> c \<noteq> CHR ''+''
     \<and> c \<noteq> CHR '','' \<and> field_byte c"
  by (auto simp: isDigit_def isSpace_def field_byte_def)

lemma SplitN2_at: "sep \<notin> set u \<Longrightarrow> SplitN2 sep (u @ sep # v) = [u, v]"
  by (induction u) (auto simp: SplitN2_def)

lemma SplitN2_none: "sep \<notin> set u \<Longrightarrow> SplitN2 sep u = [u]"
  by (simp add: SplitN2_def)

lemma Split_none: "sep \<notin> set u \<Longrightarrow> Split sep u = [u]"
  by (induction u) auto

lemma count_up_empty: "hi < lo \<Longrightarrow> count_up lo hi step vals = Some vals"
  by (subst count_up.simps) simp

lemma Atoi_digits:
  assumes "Atoi s = Some v"
  shows "\<exists>c cs. s = c # cs \<and> (isDigit c \<or> c = CHR ''-'' \<or> c = CHR ''+'') \<and> list_all isDigit cs"
proof (cases s)
  case Nil
  with assms show ?thesis by (simp add: Atoi_def)
next
  case (Cons c cs)
  show ?thesis
  proof (cases "c = CHR ''-'' \<or> c = CHR ''+''")
    case True
    with assms Cons have "list_all isDigit cs"
      by (simp add: Atoi_def Let_def split: if_splits)
    with True Cons show ?thesis by auto
  next
    case False
    with assms Cons have "list_all isDigit (c # cs)"
      by (simp add: Atoi_def Let_def split: if_splits)
    with Cons show ?thesis by auto
  qed
qed

lemma Atoi_shape:
  assumes "Atoi s = Some v"
  shows "s \<noteq> []" and "hd s \<noteq> CHR ''*''" and "CHR ''/'' \<notin> set s" and "CHR '','' \<notin> set s"
    and "\<forall>c\<in>set s. field_byte c"
proof -
  from Atoi_digits[OF assms] obtain c cs where s: "s = c # cs"
    and c: "isDigit c \<or> c = CHR ''-'' \<or> c = CHR ''+''" and cs: "list_all isDigit cs"
    by blast
  have c1: "c \<noteq> CHR ''*'' \<and> c \<noteq> CHR ''/'' \<and> c \<noteq> CHR '','' \<and> field_byte c"
  proof -
    have sg: "field_byte (CHR ''-'')" "field_byte (CHR ''+'')"
      by (simp_all add: field_byte_def isSpace_def)
    from c show ?thesis
    proof (elim disjE)
      assume "isDigit c"
      then show ?thesis using isDigit_chars[of c] by blast
    next
      assume "c = CHR ''-''"
      then show ?thesis using sg by simp
    next
      assume "c = CHR ''+''"
      then show ?thesis using sg by simp
    qed
  qed
  have cs1: "\<forall>x\<in>set cs. x \<noteq> CHR ''/'' \<and> x \<noteq> CHR '','' \<and> field_byte x"
    using cs isDigit_chars by (auto simp: list_all_iff)
  show "s \<noteq> []" by (simp add: s)
  show "hd s \<noteq> CHR ''*''" using c1 by (simp add: s)
  show "CHR ''/'' \<notin> set s" using c1 cs1 by (auto simp: s)
  show "CHR '','' \<notin> set s" using c1 cs1 by (auto simp: s)
  show "\<forall>c\<in>set s. field_byte c" using c1 cs1 by (auto simp: s)
qed

lemma not_star_prefix: "a \<noteq> [] \<Longrightarrow> hd a \<noteq> CHR ''*'' \<Longrightarrow> \<not> HasPrefix (a @ r) ''*/''"
  by (cases a) (simp_all add: HasPrefix_def)

lemma not_star: "a \<noteq> [] \<Longrightarrow> hd a \<noteq> CHR ''*'' \<Longrightarrow> a @ r \<noteq> ''*''"
  by (cases a) simp_all

lemma parsePart_range:
  assumes a: "Atoi a = Some lo" and b: "Atoi b = Some hi" and na: "CHR ''-'' \<notin> set a"
  shows "parsePart (a @ ''-'' @ b) mn mx = map_option Inr (count_up lo hi 1 [])"
proof -
  from Atoi_shape[OF a] have a1: "a \<noteq> []" "hd a \<noteq> CHR ''*''" "CHR ''/'' \<notin> set a" by auto
  from Atoi_shape[OF b] have b1: "b \<noteq> []" "CHR ''/'' \<notin> set b" by auto
  define part where "part = a @ ''-'' @ b"
  have np: "\<not> HasPrefix part ''*/''"
    unfolding part_def using a1 by (intro not_star_prefix)
  have ns: "part \<noteq> ''*''" unfolding part_def using a1 by (intro not_star)
  have ct: "Contains part (CHR ''-'')" by (simp add: Contains_def part_def)
  have "CHR ''/'' \<notin> set part" using a1 b1 by (simp add: part_def)
  then have r: "SplitN2 (CHR ''/'') part = [part]" by (rule SplitN2_none)
  have bd: "SplitN2 (CHR ''-'') part = [a, b]"
    using SplitN2_at[OF na, of b] by (simp add: part_def)
  have "parsePart part mn mx = map_option Inr (count_up lo hi 1 [])"
    by (simp add: parsePart_def np ns ct r bd a b Let_def)
  then show ?thesis by (simp only: part_def)
qed

lemma parsePart_range_step:
  assumes a: "Atoi a = Some lo" and b: "Atoi b = Some hi" and na: "CHR ''-'' \<notin> set a"
    and s: "Atoi s = Some step" and pos: "0 < step"
  shows "parsePart (a @ ''-'' @ b @ ''/'' @ s) mn mx = map_option Inr (count_up lo hi step [])"
proof -
  from Atoi_shape[OF a] have a1: "a \<noteq> []" "hd a \<noteq> CHR ''*''" "CHR ''/'' \<notin> set a" by auto
  from Atoi_shape[OF b] have b1: "b \<noteq> []" "CHR ''/'' \<notin> set b" by auto
  define rng where "rng = a @ ''-'' @ b"
  define part where "part = rng @ ''/'' @ s"
  have part_eq: "part = a @ ''-'' @ b @ ''/'' @ s" by (simp add: part_def rng_def)
  have np: "\<not> HasPrefix part ''*/''"
    unfolding part_eq using a1 by (intro not_star_prefix)
  have ns: "part \<noteq> ''*''" unfolding part_eq using a1 by (intro not_star)
  have ct: "Contains part (CHR ''-'')" by (simp add: Contains_def part_eq)
  have "CHR ''/'' \<notin> set rng" using a1 b1 by (simp add: rng_def)
  then have "SplitN2 (CHR ''/'') (rng @ CHR ''/'' # s) = [rng, s]"
    by (rule SplitN2_at)
  then have r: "SplitN2 (CHR ''/'') part = [rng, s]" by (simp add: part_def)
  have bd: "SplitN2 (CHR ''-'') rng = [a, b]"
    using SplitN2_at[OF na, of b] by (simp add: rng_def)
  have "parsePart part mn mx = map_option Inr (count_up lo hi step [])"
    using pos by (simp add: parsePart_def np ns ct r bd a b s Let_def)
  then show ?thesis by (simp only: part_eq)
qed

lemma space_width_field_byte: "field_byte c \<Longrightarrow> space_width (c # r) = 0"
  by (simp add: space_width_def field_byte_def)

lemma fields_from_word:
  "\<forall>c\<in>set w. field_byte c \<Longrightarrow> fields_from (w @ rest) cur = fields_from rest (cur @ w)"
  by (induction w arbitrary: cur) (auto simp: space_width_field_byte)

lemma Fields_first_word:
  assumes "\<forall>c\<in>set w. field_byte c"
  shows "Fields (w @ rest) = fields_from rest w"
  using fields_from_word[OF assms, of rest "[]"] by (simp add: Fields_def)

lemma parseField_one_part:
  "CHR '','' \<notin> set part \<Longrightarrow> parsePart part mn mx = Some (Inr vals)
     \<Longrightarrow> parseField part mn mx = Some (Inr vals)"
  by (simp add: parseField_def Split_none)

lemma ParseCron_Inr:
  assumes "ParseCron expr = Some (Inr c)"
  shows "parseField (Fields expr ! 0) 0 59 = Some (Inr (Minutes c))"
    and "parseField (Fields expr ! 1) 0 23 = Some (Inr (Hours c))"
    and "parseField (Fields expr ! 2) 1 31 = Some (Inr (DaysOfMonth c))"
    and "parseField (Fields expr ! 3) 1 12 = Some (Inr (Months c))"
    and "parseField (Fields expr ! 4) 0 6 = Some (Inr (DaysOfWeek c))"
  using assms
  by (auto simp: ParseCron_def Let_def split: if_splits option.splits sum.splits)

lemma ParseCron_of_fields:
  assumes "Fields expr = [f0, f1, f2, f3, f4]"
    and "parseField f0 0 59 = Some (Inr mi)" and "parseField f1 0 23 = Some (Inr ho)"
    and "parseField f2 1 31 = Some (Inr dm)" and "parseField f3 1 12 = Some (Inr mo)"
    and "parseField f4 0 6 = Some (Inr dw)"
  shows "ParseCron expr = Some (Inr \<lparr>Minutes = mi, Hours = ho, DaysOfMonth = dm,
           Months = mo, DaysOfWeek = dw\<rparr>)"
  using assms by (simp add: ParseCron_def Let_def)

lemma empty_field_never_matches:
  assumes p: "ParseCron expr = Some (Inr c)" and k: "k < 5"
    and e: "\<And>mn mx. parseField (Fields expr ! k) mn mx = Some (Inr [])"
  shows "\<not> Matches c t"
proof -
  from k have "k = 0 \<or> k = 1 \<or> k = 2 \<or> k = 3 \<or> k = 4" by arith
  then have "Minutes c = [] \<or> Hours c = [] \<or> DaysOfMonth c = [] \<or> Months c = [] \<or> DaysOfWeek c = []"
    using ParseCron_Inr[OF p] e by (elim disjE) simp_all
  then show ?thesis by (auto simp: Matches_iff)
qed

text \<open>
  C10. A range part \<open>a-b\<close>, with or without a step, whose start is greater than its end
  is accepted and yields no value, whatever the bounds of the field. A field made of
  such a part alone parses to the empty set: \<open>a-b * * * *\<close> parses, with an empty minute
  set, and an expression with such a field, in any of the five places, matches no
  timestamp if it parses.
\<close>

theorem inverted_range_accepted_and_empty:
  assumes a: "Atoi a = Some lo" and b: "Atoi b = Some hi"
    and na: "CHR ''-'' \<notin> set a" and inv: "hi < lo"
  shows "parsePart (a @ ''-'' @ b) mn mx = Some (Inr [])
    \<and> (\<forall>s step. Atoi s = Some step \<and> 0 < step
          \<longrightarrow> parsePart (a @ ''-'' @ b @ ''/'' @ s) mn mx = Some (Inr []))
    \<and> parseField (a @ ''-'' @ b) mn mx = Some (Inr [])
    \<and> (\<exists>c. ParseCron (a @ ''-'' @ b @ '' * * * *'') = Some (Inr c) \<and> Minutes c = []
          \<and> (\<forall>t. \<not> Matches c t))
    \<and> (\<forall>expr k c t. k < 5 \<and> ParseCron expr = Some (Inr c)
          \<and> (Fields expr ! k = a @ ''-'' @ b
              \<or> (\<exists>s step. Atoi s = Some step \<and> 0 < step \<and> Fields expr ! k = a @ ''-'' @ b @ ''/'' @ s))
          \<longrightarrow> \<not> Matches c t)"
proof -
  from Atoi_shape[OF a] have a1: "a \<noteq> []" "CHR '','' \<notin> set a" "\<forall>c\<in>set a. field_byte c"
    by auto
  from Atoi_shape[OF b] have b1: "CHR '','' \<notin> set b" "\<forall>c\<in>set b. field_byte c"
    by auto
  have part: "parsePart (a @ ''-'' @ b) mn mx = Some (Inr [])" for mn mx
    using parsePart_range[OF a b na] count_up_empty[OF inv] by simp
  have step: "parsePart (a @ ''-'' @ b @ ''/'' @ s) mn mx = Some (Inr [])"
    if "Atoi s = Some st" "0 < st" for s st mn mx
    using parsePart_range_step[OF a b na that] count_up_empty[OF inv] by simp
  have field: "parseField (a @ ''-'' @ b) mn mx = Some (Inr [])" for mn mx
    using a1 b1 by (intro parseField_one_part part) simp
  have field_step: "parseField (a @ ''-'' @ b @ ''/'' @ s) mn mx = Some (Inr [])"
    if s: "Atoi s = Some st" "0 < st" for s st mn mx
  proof -
    from Atoi_shape[OF s(1)] have "CHR '','' \<notin> set s" by auto
    with a1 b1 show ?thesis by (intro parseField_one_part step[OF s]) simp
  qed
  have never: "\<not> Matches c t"
    if "k < 5" "ParseCron expr = Some (Inr c)"
      "Fields expr ! k = a @ ''-'' @ b
        \<or> (\<exists>s step. Atoi s = Some step \<and> 0 < step \<and> Fields expr ! k = a @ ''-'' @ b @ ''/'' @ s)"
    for expr k c t
    using that field field_step by (intro empty_field_never_matches[of expr c k]) auto
  have sp: "\<forall>c\<in>set (a @ ''-'' @ b). field_byte c"
    using a1 b1 by (auto simp: isSpace_def field_byte_def)
  have "Fields ((a @ ''-'' @ b) @ '' * * * *'') = fields_from '' * * * *'' (a @ ''-'' @ b)"
    by (rule Fields_first_word[OF sp])
  then have fs: "Fields (a @ ''-'' @ b @ '' * * * *'') = [a @ ''-'' @ b, ''*'', ''*'', ''*'', ''*'']"
    by (simp add: space_width_def isSpace_def)
  let ?c = "\<lparr>Minutes = [], Hours = [0..23],
     DaysOfMonth = [1..31],
     Months = [1..12], DaysOfWeek = [0..6]\<rparr>"
  have pc: "ParseCron (a @ ''-'' @ b @ '' * * * *'') = Some (Inr ?c)"
    by (rule ParseCron_of_fields[OF fs field parseField_star_hours parseField_star_doms
          parseField_star_months parseField_star_dows])
  have "\<forall>t. \<not> Matches ?c t" by (simp add: Matches_iff)
  with pc have ex: "\<exists>c. ParseCron (a @ ''-'' @ b @ '' * * * *'') = Some (Inr c) \<and> Minutes c = []
          \<and> (\<forall>t. \<not> Matches c t)"
    by (intro exI[of _ ?c]) simp
  show ?thesis using part step field ex never by blast
qed

lemma Atoi_5: "Atoi ''5'' = Some 5"
  by code_simp

lemma Atoi_3: "Atoi ''3'' = Some 3"
  by code_simp

theorem inverted_range_accepted_and_empty_witness:
  "parsePart ''5-3'' 0 59 = Some (Inr [])
   \<and> parsePart ''5-3/2'' 0 59 = Some (Inr [])
   \<and> (\<exists>c. ParseCron ''5-3 * * * *'' = Some (Inr c) \<and> Minutes c = []
        \<and> \<not> Matches c \<lparr>UnixNano = 0, Minute = 4, Hour = 0, Day = 1, Month = 1, Weekday = 4\<rparr>)"
proof -
  have n: "CHR ''-'' \<notin> set ''5''" and o: "(3::int) < 5" by simp_all
  have s: "Atoi ''2'' = Some 2 \<and> (0::int) < 2" by code_simp
  note w = inverted_range_accepted_and_empty[OF Atoi_5 Atoi_3 n o, of 0 59]
  from w have "parsePart ''5-3'' 0 59 = Some (Inr [])" by simp
  moreover from w s have "parsePart (''5'' @ ''-'' @ ''3'' @ ''/'' @ ''2'') 0 59 = Some (Inr [])"
    by blast
  then have "parsePart ''5-3/2'' 0 59 = Some (Inr [])" by simp
  moreover from w obtain c where "ParseCron (''5'' @ ''-'' @ ''3'' @ '' * * * *'') = Some (Inr c)"
    "Minutes c = []" "\<forall>t. \<not> Matches c t" by blast
  then have "\<exists>c. ParseCron ''5-3 * * * *'' = Some (Inr c) \<and> Minutes c = []
        \<and> \<not> Matches c \<lparr>UnixNano = 0, Minute = 4, Hour = 0, Day = 1, Month = 1, Weekday = 4\<rparr>"
    by auto
  ultimately show ?thesis by blast
qed

lemma parse_60_61:
  "ParseCron ''60-61 * * * *'' = Some (Inr \<lparr>Minutes = [60, 61],
     Hours = [0..23],
     DaysOfMonth = [1..31],
     Months = [1..12], DaysOfWeek = [0..6]\<rparr>)"
  by code_simp

lemma parse_60_rejected:
  "ParseCron ''60 * * * *'' = Some (Inl (MinuteField (OutOfRange 60 0 59)))"
  by code_simp

lemma parse_step_wraps:
  "parsePart ''*/9223372036854775807'' 1 31 = Some (Inr [1, - 9223372036854775808, - 1])"
  by code_simp

lemma parse_step_0_rejected:
  "ParseCron ''1-5/0 * * * *'' = Some (Inl (MinuteField (InvalidStep ''0'')))"
  by code_simp

text \<open>
  C2. The bounds of a field are checked for a single value only. A range is taken as
  written: \<open>60-61 * * * *\<close> is accepted and its minute set is 60, 61, outside 0 to 59.
  (The two expressions the claim names are rejected, each with an error that names the
  minute field.)
\<close>

theorem range_out_of_bounds_accepted:
  "(\<exists>c. ParseCron ''60-61 * * * *'' = Some (Inr c) \<and> Minutes c = [60, 61])
   \<and> ParseCron ''60 * * * *'' = Some (Inl (MinuteField (OutOfRange 60 0 59)))
   \<and> ParseCron ''1-5/0 * * * *'' = Some (Inl (MinuteField (InvalidStep ''0'')))"
  by (simp add: parse_60_61 parse_60_rejected parse_step_0_rejected)

section \<open>The collector: results\<close>

subsection \<open>CPU percentage\<close>

lemma cpu_percent_example:
  "calculateCPUPercent \<lparr>CPUStats = \<lparr>TotalUsage = 200000000, SystemCPUUsage = 1000000000, OnlineCPUs = 4\<rparr>,
     PreCPUStats = \<lparr>TotalUsage = 0, SystemCPUUsage = 0, OnlineCPUs = 4\<rparr>,
     MemoryStats = \<lparr>Usage = 0, Limit = 0\<rparr>, Networks = []\<rparr> = 80"
  by (simp add: calculateCPUPercent_def float64_def)

lemma cpu_percent_no_progress:
  "SystemCPUUsage (CPUStats s) = SystemCPUUsage (PreCPUStats s)
     \<or> TotalUsage (CPUStats s) = TotalUsage (PreCPUStats s) \<Longrightarrow> calculateCPUPercent s = 0"
  by (auto simp: calculateCPUPercent_def float64_def Let_def)

lemma cpu_percent_increasing:
  assumes "TotalUsage (PreCPUStats s) < TotalUsage (CPUStats s)"
    and "SystemCPUUsage (PreCPUStats s) < SystemCPUUsage (CPUStats s)"
  shows "calculateCPUPercent s =
     real (unat (TotalUsage (CPUStats s)) - unat (TotalUsage (PreCPUStats s)))
       / real (unat (SystemCPUUsage (CPUStats s)) - unat (SystemCPUUsage (PreCPUStats s)))
       * (if OnlineCPUs (CPUStats s) = 0 then 1 else real (unat (OnlineCPUs (CPUStats s)))) * 100"
proof -
  define cd where "cd = unat (TotalUsage (CPUStats s)) - unat (TotalUsage (PreCPUStats s))"
  define sd where "sd = unat (SystemCPUUsage (CPUStats s)) - unat (SystemCPUUsage (PreCPUStats s))"
  have "unat (TotalUsage (CPUStats s) - TotalUsage (PreCPUStats s)) = cd"
    unfolding cd_def using assms(1) by (intro unat_sub) simp
  then have c: "float64 (TotalUsage (CPUStats s) - TotalUsage (PreCPUStats s)) = real cd"
    by (simp add: float64_def)
  have "unat (SystemCPUUsage (CPUStats s) - SystemCPUUsage (PreCPUStats s)) = sd"
    unfolding sd_def using assms(2) by (intro unat_sub) simp
  then have y: "float64 (SystemCPUUsage (CPUStats s) - SystemCPUUsage (PreCPUStats s)) = real sd"
    by (simp add: float64_def)
  have cpos: "0 < cd" using assms(1) by (simp add: cd_def word_less_nat_alt)
  have ypos: "0 < sd" using assms(2) by (simp add: sd_def word_less_nat_alt)
  have z: "float64 (OnlineCPUs (CPUStats s)) = 0 \<longleftrightarrow> OnlineCPUs (CPUStats s) = 0"
    by (simp add: float64_def unsigned_eq_0_iff)
  have "calculateCPUPercent s = real cd / real sd
      * (if OnlineCPUs (CPUStats s) = 0 then 1 else float64 (OnlineCPUs (CPUStats s))) * 100"
    unfolding calculateCPUPercent_def Let_def c y z using cpos ypos by simp
  then show ?thesis by (simp add: cd_def sd_def float64_def)
qed

text \<open>
  C3. The two deltas are differences of unsigned 64-bit counters. When a counter is
  reset, so that the current value is below the previous one, the difference wraps to
  a large positive number, the guard \<open>cpuDelta <= 0\<close> does not fire, and the result is
  not 0: with the CPU counter going from 200 to 100 while the system counter goes from
  1000 to 2000, on one CPU, it is 1844674407370955151.6 in the real numbers of this
  model (and 1844674407370955264 after the roundings of \<open>float64\<close>).
\<close>

theorem cpu_percent_counter_reset:
  "calculateCPUPercent \<lparr>CPUStats = \<lparr>TotalUsage = 100, SystemCPUUsage = 2000, OnlineCPUs = 1\<rparr>,
     PreCPUStats = \<lparr>TotalUsage = 200, SystemCPUUsage = 1000, OnlineCPUs = 1\<rparr>,
     MemoryStats = \<lparr>Usage = 0, Limit = 0\<rparr>, Networks = []\<rparr> = 18446744073709551516 / 10"
  by (simp add: calculateCPUPercent_def float64_def)

subsection \<open>Start and Stop\<close>

lemma ctx_fresh_New: "ctx_fresh NewCollector"
  by (simp add: ctx_fresh_def NewCollector_def)

lemma ctx_fresh_Start: "ctx_fresh c \<Longrightarrow> ctx_fresh (Start c)"
  by (auto simp: ctx_fresh_def Start_def list_all_iff)

lemma running_loops_Start:
  assumes "ctx_fresh c"
  shows "running_loops (Start c) = running_loops c @ [next_ctx c]"
proof -
  from assms have "next_ctx c \<notin> set (cancelled c)"
    by (auto simp: ctx_fresh_def list_all_iff)
  then show ?thesis by (simp add: running_loops_def Start_def)
qed

lemma running_loops_Stop_Start:
  assumes "ctx_fresh c"
  shows "running_loops (Stop (Start c)) = running_loops c"
proof -
  from assms have "next_ctx c \<notin> set (polling c)"
    by (auto simp: ctx_fresh_def list_all_iff)
  then have "filter (\<lambda>k. k \<noteq> next_ctx c \<and> k \<notin> set (cancelled c)) (polling c)
      = filter (\<lambda>k. k \<notin> set (cancelled c)) (polling c)"
    by (intro filter_cong) auto
  then show ?thesis by (simp add: running_loops_def Start_def Stop_def)
qed

text \<open>
  C7, as the code has it. \<open>Start\<close> has no guard: every call launches one more polling
  loop and stores the new cancel function over the old one. After a second \<open>Start\<close> two
  more loops run than before the first, and \<open>Stop\<close> then ends only the loop started
  last. \<open>Start\<close> itself only launches the loop: it is a function of the state that
  returns.
\<close>

theorem start_launches_a_loop_each_time:
  assumes "ctx_fresh c"
  shows "running_loops (Start c) = running_loops c @ [next_ctx c]
    \<and> running_loops (Start (Start c)) = running_loops c @ [next_ctx c, Suc (next_ctx c)]
    \<and> cancel (Start (Start c)) = Some (Suc (next_ctx c))
    \<and> running_loops (Stop (Start (Start c))) = running_loops c @ [next_ctx c]"
proof -
  have f: "ctx_fresh (Start c)" using assms by (rule ctx_fresh_Start)
  have n: "next_ctx (Start c) = Suc (next_ctx c)" by (simp add: Start_def)
  have 1: "running_loops (Start c) = running_loops c @ [next_ctx c]"
    using assms by (rule running_loops_Start)
  have 2: "running_loops (Start (Start c)) = running_loops c @ [next_ctx c, Suc (next_ctx c)]"
    using running_loops_Start[OF f] 1 n by simp
  have 3: "cancel (Start (Start c)) = Some (Suc (next_ctx c))"
    by (simp add: Start_def)
  have 4: "running_loops (Stop (Start (Start c))) = running_loops c @ [next_ctx c]"
    using running_loops_Stop_Start[OF f] 1 by simp
  from 1 2 3 4 show ?thesis by blast
qed

theorem start_launches_a_loop_each_time_witness:
  "ctx_fresh NewCollector
   \<and> running_loops (Start NewCollector) = [0]
   \<and> running_loops (Start (Start NewCollector)) = [0, 1]
   \<and> running_loops (Stop (Start (Start NewCollector))) = [0]"
proof -
  have r: "running_loops NewCollector = []" "next_ctx NewCollector = 0"
    by (simp_all add: running_loops_def NewCollector_def)
  from start_launches_a_loop_each_time[OF ctx_fresh_New] show ?thesis
    by (simp add: r ctx_fresh_New)
qed

text \<open>
  C7, as the claim has it, fails on a fresh collector: after two calls of \<open>Start\<close> two
  polling loops run, not one, and \<open>Stop\<close> leaves the first of them running.
\<close>

theorem second_start_is_not_a_no_op:
  "length (running_loops (Start (Start NewCollector))) = 2
   \<and> running_loops (Start (Start NewCollector)) \<noteq> running_loops (Start NewCollector)
   \<and> running_loops (Stop (Start NewCollector)) = []
   \<and> running_loops (Stop (Start (Start NewCollector))) = [0]"
  by (simp add: running_loops_def Start_def Stop_def NewCollector_def)

subsection \<open>One tick\<close>

lemma fetchStats_ServerID: "fetchStats env sid cid = Inr s \<Longrightarrow> ServerID s = sid"
  by (auto simp: fetchStats_def split: sum.splits)

lemma fanout_chan:
  "fst (fanout ls s (cs, evs)) ch = (if ch \<in> set ls \<and> cs ch = [] then [s] else cs ch)"
proof (induction ls arbitrary: cs evs)
  case Nil
  show ?case by simp
next
  case (Cons k ls)
  show ?case
  proof (cases "cs k = []")
    case True
    have "fst (fanout (k # ls) s (cs, evs)) ch
        = fst (fanout ls s (cs(k := [s]), evs @ [Send k s])) ch"
      using True by simp
    also have "\<dots> = (if ch \<in> set ls \<and> (cs(k := [s])) ch = [] then [s] else (cs(k := [s])) ch)"
      by (rule Cons.IH)
    also have "\<dots> = (if ch \<in> set (k # ls) \<and> cs ch = [] then [s] else cs ch)"
      using True by auto
    finally show ?thesis .
  next
    case False
    then have "\<not> length (cs k) < 1" by (cases "cs k") auto
    then have "fst (fanout (k # ls) s (cs, evs)) ch = fst (fanout ls s (cs, evs @ [Drop k s])) ch"
      by simp
    also have "\<dots> = (if ch \<in> set ls \<and> cs ch = [] then [s] else cs ch)"
      by (rule Cons.IH)
    also have "\<dots> = (if ch \<in> set (k # ls) \<and> cs ch = [] then [s] else cs ch)"
      using False by auto
    finally show ?thesis .
  qed
qed

lemma fanout_events:
  "\<exists>new. snd (fanout ls s (cs, evs)) = evs @ new
     \<and> (\<forall>e\<in>set new. \<exists>k. e = Send k s \<or> e = Drop k s)"
proof (induction ls arbitrary: cs evs)
  case Nil
  show ?case by simp
next
  case (Cons k ls)
  show ?case
  proof (cases "length (cs k) < 1")
    case True
    from Cons.IH[of "cs(k := cs k @ [s])" "evs @ [Send k s]"] obtain new where
      "snd (fanout ls s (cs(k := cs k @ [s]), evs @ [Send k s])) = (evs @ [Send k s]) @ new"
      "\<forall>e\<in>set new. \<exists>k. e = Send k s \<or> e = Drop k s" by blast
    then show ?thesis using True by (intro exI[of _ "Send k s # new"]) auto
  next
    case False
    from Cons.IH[of cs "evs @ [Drop k s]"] obtain new where
      "snd (fanout ls s (cs, evs @ [Drop k s])) = (evs @ [Drop k s]) @ new"
      "\<forall>e\<in>set new. \<exists>k. e = Send k s \<or> e = Drop k s" by blast
    then show ?thesis using False by (intro exI[of _ "Drop k s # new"]) auto
  qed
qed

lemma fanout_drop:
  "ch \<in> set ls \<Longrightarrow> cs ch \<noteq> [] \<Longrightarrow> Drop ch s \<in> set (snd (fanout ls s (cs, evs)))"
proof (induction ls arbitrary: cs evs)
  case Nil
  then show ?case by simp
next
  case (Cons k ls)
  show ?case
  proof (cases "k = ch")
    case True
    with Cons.prems have nl: "\<not> length (cs k) < 1" by (cases "cs k") auto
    from fanout_events[of ls s cs "evs @ [Drop k s]"] have
      "Drop k s \<in> set (snd (fanout ls s (cs, evs @ [Drop k s])))" by auto
    with nl True show ?thesis by simp
  next
    case False
    with Cons.prems have m: "ch \<in> set ls" by simp
    show ?thesis
    proof (cases "length (cs k) < 1")
      case True
      have "(cs(k := cs k @ [s])) ch \<noteq> []" using False Cons.prems by simp
      with m have "Drop ch s \<in> set (snd (fanout ls s (cs(k := cs k @ [s]), evs @ [Send k s])))"
        by (rule Cons.IH)
      with True show ?thesis by simp
    next
      case F: False
      from m Cons.prems(2) have "Drop ch s \<in> set (snd (fanout ls s (cs, evs @ [Drop k s])))"
        by (rule Cons.IH)
      with F show ?thesis by simp
    qed
  qed
qed

text \<open>The two ways through the body of the loop.\<close>

lemma collect_one_failed:
  assumes "fetchStats env (info_id srv) (info_containerID srv) = Inl err"
  shows "collect_one env srv st
    = (fst st, snd st @ [Fetch (info_id srv) (info_containerID srv), LogFetch (info_id srv) err])"
  using assms by (simp add: collect_one_def Let_def)

lemma collect_one_fetched:
  assumes "fetchStats env (info_id srv) (info_containerID srv) = Inr s"
  shows "collect_one env srv st
    = ((fst st)\<lparr>latest := (latest (fst st))(info_id srv \<mapsto> s),
                chans := fst (fanout (listeners (fst st) (info_id srv)) s
                                (chans (fst st), snd st @ sample_events env srv s))\<rparr>,
       snd (fanout (listeners (fst st) (info_id srv)) s
              (chans (fst st), snd st @ sample_events env srv s)))"
  using assms by (simp add: collect_one_def Let_def sample_events_def case_prod_beta)

lemma collect_one_listeners: "listeners (fst (collect_one env srv st)) = listeners (fst st)"
proof (cases "fetchStats env (info_id srv) (info_containerID srv)")
  case (Inl err)
  then show ?thesis by (simp add: collect_one_failed)
next
  case (Inr s)
  then show ?thesis by (simp add: collect_one_fetched)
qed

lemma collect_one_chan:
  "chans (fst (collect_one env srv st)) ch =
     (case fetchStats env (info_id srv) (info_containerID srv) of
        Inl err \<Rightarrow> chans (fst st) ch
      | Inr s \<Rightarrow> if ch \<in> set (listeners (fst st) (info_id srv)) \<and> chans (fst st) ch = []
                 then [s] else chans (fst st) ch)"
proof (cases "fetchStats env (info_id srv) (info_containerID srv)")
  case (Inl err)
  then show ?thesis by (simp add: collect_one_failed)
next
  case (Inr s)
  then show ?thesis by (simp add: collect_one_fetched fanout_chan)
qed

lemma collect_one_latest:
  "latest (fst (collect_one env srv st)) sid =
     (case fetchStats env (info_id srv) (info_containerID srv) of
        Inl err \<Rightarrow> latest (fst st) sid
      | Inr s \<Rightarrow> if sid = info_id srv then Some s else latest (fst st) sid)"
proof (cases "fetchStats env (info_id srv) (info_containerID srv)")
  case (Inl err)
  then show ?thesis by (simp add: collect_one_failed)
next
  case (Inr s)
  then show ?thesis by (simp add: collect_one_fetched)
qed

lemma collect_one_events:
  "\<exists>new. snd (collect_one env srv st) = snd st @ new
     \<and> (\<forall>e\<in>set new. event_target e = None \<or> event_target e = Some (info_id srv))
     \<and> (\<forall>x s. Cache x s \<in> set new \<longleftrightarrow>
           x = info_id srv \<and> fetchStats env (info_id srv) (info_containerID srv) = Inr s)"
proof (cases "fetchStats env (info_id srv) (info_containerID srv)")
  case (Inl err)
  then show ?thesis by (simp add: collect_one_failed)
next
  case (Inr s)
  from fanout_events[of "listeners (fst st) (info_id srv)" s "chans (fst st)"
      "snd st @ sample_events env srv s"]
  obtain new where n: "snd (fanout (listeners (fst st) (info_id srv)) s
        (chans (fst st), snd st @ sample_events env srv s)) = (snd st @ sample_events env srv s) @ new"
    and k: "\<forall>e\<in>set new. \<exists>k. e = Send k s \<or> e = Drop k s" by blast
  have sid: "ServerID s = info_id srv" using Inr by (rule fetchStats_ServerID)
  have t: "\<forall>e\<in>set (sample_events env srv s @ new).
      event_target e = None \<or> event_target e = Some (info_id srv)"
    using k sid by (auto simp: sample_events_def)
  have c: "\<forall>x s'. Cache x s' \<in> set (sample_events env srv s @ new) \<longleftrightarrow> x = info_id srv \<and> s' = s"
    using k by (auto simp: sample_events_def)
  have c': "\<forall>x s'. Cache x s' \<in> set (sample_events env srv s @ new) \<longleftrightarrow>
      x = info_id srv \<and> fetchStats env (info_id srv) (info_containerID srv) = Inr s'"
    using c Inr by auto
  have "snd (collect_one env srv st) = snd st @ (sample_events env srv s @ new)"
    using n Inr by (simp add: collect_one_fetched)
  with t c' show ?thesis by blast
qed

lemma collect_servers_listeners:
  "listeners (fst (collect_servers env srvs st)) = listeners (fst st)"
  by (induction srvs arbitrary: st) (simp_all add: collect_one_listeners)

lemma collect_servers_events:
  "\<exists>new. snd (collect_servers env srvs st) = snd st @ new
     \<and> (\<forall>e\<in>set new. event_target e = None
            \<or> (\<exists>srv\<in>set srvs. event_target e = Some (info_id srv)))"
proof (induction srvs arbitrary: st)
  case Nil
  show ?case by simp
next
  case (Cons srv srvs)
  from collect_one_events[of env srv st] obtain n1 where
    a: "snd (collect_one env srv st) = snd st @ n1"
    and b: "\<forall>e\<in>set n1. event_target e = None \<or> event_target e = Some (info_id srv)"
    by blast
  from Cons.IH[of "collect_one env srv st"] obtain n2 where
    c: "snd (collect_servers env srvs (collect_one env srv st))
          = snd (collect_one env srv st) @ n2"
    and d: "\<forall>e\<in>set n2. event_target e = None
              \<or> (\<exists>srv\<in>set srvs. event_target e = Some (info_id srv))"
    by blast
  have "snd (collect_servers env (srv # srvs) st) = snd st @ (n1 @ n2)"
    using a c by simp
  moreover have "\<forall>e\<in>set (n1 @ n2). event_target e = None
      \<or> (\<exists>x\<in>set (srv # srvs). event_target e = Some (info_id x))"
    using b d by auto
  ultimately show ?case by blast
qed

lemma collect_servers_latest:
  "latest (fst (collect_servers env srvs st)) sid \<noteq> latest (fst st) sid
     \<Longrightarrow> sid \<in> info_id ` set srvs"
proof (induction srvs arbitrary: st)
  case Nil
  then show ?case by simp
next
  case (Cons srv srvs)
  show ?case
  proof (cases "latest (fst (collect_one env srv st)) sid = latest (fst st) sid")
    case True
    with Cons.prems have "latest (fst (collect_servers env srvs (collect_one env srv st))) sid
        \<noteq> latest (fst (collect_one env srv st)) sid" by simp
    from Cons.IH[OF this] show ?thesis by simp
  next
    case False
    then have "sid = info_id srv"
      by (auto simp: collect_one_latest split: sum.splits if_splits)
    then show ?thesis by simp
  qed
qed

lemma collect_servers_chans:
  "chans (fst (collect_servers env srvs st)) ch \<noteq> chans (fst st) ch
     \<Longrightarrow> \<exists>srv\<in>set srvs. ch \<in> set (listeners (fst st) (info_id srv))"
proof (induction srvs arbitrary: st)
  case Nil
  then show ?case by simp
next
  case (Cons srv srvs)
  show ?case
  proof (cases "chans (fst (collect_one env srv st)) ch = chans (fst st) ch")
    case True
    with Cons.prems have "chans (fst (collect_servers env srvs (collect_one env srv st))) ch
        \<noteq> chans (fst (collect_one env srv st)) ch" by simp
    from Cons.IH[OF this] show ?thesis by (simp add: collect_one_listeners)
  next
    case False
    then have "ch \<in> set (listeners (fst st) (info_id srv))"
      by (auto simp: collect_one_chan split: sum.splits if_splits)
    then show ?thesis by simp
  qed
qed

lemma scan_servers_rows:
  "s \<in> set (scan_servers rs)
     \<Longrightarrow> \<exists>r\<in>set rs. srv_id r = info_id s \<and> srv_container_id r = Some (info_containerID s)"
  by (induction rs) (auto split: option.splits)

lemma scanned_running:
  assumes "s \<in> set (scan_servers (query_running rows))"
  shows "running_target rows (info_id s)"
proof -
  from scan_servers_rows[OF assms] obtain r where
    "r \<in> set rows" "running_row r" "srv_id r = info_id s"
    by (auto simp: query_running_def)
  then show ?thesis by (auto simp: running_target_def list_ex_iff)
qed

text \<open>
  C8. Whatever a tick does about a target (asking the runtime for its sample, inserting
  the sample, caching it, sending it or dropping it at a subscriber's channel) it does
  for a target that the servers table, as the tick's query reads it, has in state
  \<open>running\<close> with a non-empty container id. The cache changes at such targets only,
  and a channel changes only if it listens to one.
\<close>

theorem collect_only_running_targets:
  "(\<forall>e\<in>set (snd (collect env rows c)). \<forall>sid. event_target e = Some sid
        \<longrightarrow> running_target rows sid)
   \<and> (\<forall>sid. latest (fst (collect env rows c)) sid \<noteq> latest c sid \<longrightarrow> running_target rows sid)
   \<and> (\<forall>ch. chans (fst (collect env rows c)) ch \<noteq> chans c ch
        \<longrightarrow> (\<exists>sid. running_target rows sid \<and> ch \<in> set (listeners c sid)))"
proof (cases "query_fails env")
  case True
  then show ?thesis by (simp add: collect_def)
next
  case False
  define srvs where "srvs = scan_servers (query_running rows)"
  define st where "st = collect_servers env srvs (c, [])"
  have r: "running_target rows (info_id s)" if "s \<in> set srvs" for s
    using that unfolding srvs_def by (rule scanned_running)
  have f: "fst (collect env rows c) = fst st"
    using False by (simp add: collect_def Let_def case_prod_beta st_def srvs_def)
  have e: "snd (collect env rows c)
      = snd st @ [Cleanup] @ (if cleanup_fails env then [LogCleanup] else [])"
    using False by (simp add: collect_def Let_def case_prod_beta st_def srvs_def)
  from collect_servers_events[of env srvs "(c, [])"] have
    t: "\<forall>e\<in>set (snd st). event_target e = None
          \<or> (\<exists>srv\<in>set srvs. event_target e = Some (info_id srv))"
    by (auto simp: st_def)
  have 1: "\<forall>e\<in>set (snd (collect env rows c)). \<forall>sid. event_target e = Some sid
        \<longrightarrow> running_target rows sid"
  proof (intro ballI allI impI)
    fix ev sid
    assume m: "ev \<in> set (snd (collect env rows c))" and g: "event_target ev = Some sid"
    from m g have "ev \<in> set (snd st)" unfolding e by auto
    with t g obtain srv where "srv \<in> set srvs" "sid = info_id srv" by fastforce
    then show "running_target rows sid" using r by simp
  qed
  have 2: "\<forall>sid. latest (fst (collect env rows c)) sid \<noteq> latest c sid \<longrightarrow> running_target rows sid"
    using collect_servers_latest[of env srvs "(c, [])"] r unfolding f st_def by auto
  have 3: "\<forall>ch. chans (fst (collect env rows c)) ch \<noteq> chans c ch
        \<longrightarrow> (\<exists>sid. running_target rows sid \<and> ch \<in> set (listeners c sid))"
    using collect_servers_chans[of env srvs "(c, [])"] r unfolding f st_def by fastforce
  from 1 2 3 show ?thesis by blast
qed

lemma example_fetch: "fetchStats (example_env mem) ''a'' ''ca'' = Inr (example_sample mem)"
  by (simp add: fetchStats_def example_env_def example_stats_def example_sample_def
      calculateCPUPercent_def float64_def)

lemma example_servers:
  "scan_servers (query_running example_rows) = [\<lparr>info_id = ''a'', info_containerID = ''ca''\<rparr>]"
  by (simp add: example_rows_def query_running_def running_row_def)

lemma example_collect:
  "collect (example_env mem) example_rows c =
     (fst (collect_one (example_env mem) \<lparr>info_id = ''a'', info_containerID = ''ca''\<rparr> (c, [])),
      snd (collect_one (example_env mem) \<lparr>info_id = ''a'', info_containerID = ''ca''\<rparr> (c, []))
        @ [Cleanup])"
  by (simp add: collect_def example_servers case_prod_beta) (simp add: example_env_def)

theorem collect_only_running_targets_witness:
  "Fetch ''a'' ''ca'' \<in> set (snd (collect (example_env 1) example_rows NewCollector))
   \<and> running_target example_rows ''a''
   \<and> \<not> running_target example_rows ''b''
   \<and> Fetch ''b'' ''cb'' \<notin> set (snd (collect (example_env 1) example_rows NewCollector))"
proof -
  note t = collect_only_running_targets[of "example_env 1" example_rows NewCollector]
  have a: "Fetch ''a'' ''ca'' \<in> set (snd (collect (example_env 1) example_rows NewCollector))"
    by (simp add: example_collect collect_one_fetched example_fetch sample_events_def
        NewCollector_def)
  have b: "\<not> running_target example_rows ''b''"
    by (simp add: running_target_def example_rows_def running_row_def)
  from t a have "running_target example_rows ''a''" by fastforce
  moreover from t b
  have "Fetch ''b'' ''cb'' \<notin> set (snd (collect (example_env 1) example_rows NewCollector))"
    by fastforce
  ultimately show ?thesis using a b by blast
qed

subsection \<open>A channel that is not read\<close>

lemma full_stays_one:
  "chans (fst st) ch \<noteq> [] \<Longrightarrow> chans (fst (collect_one env srv st)) ch = chans (fst st) ch"
  by (simp add: collect_one_chan split: sum.splits)

lemma full_stays:
  "chans (fst st) ch \<noteq> [] \<Longrightarrow> chans (fst (collect_servers env srvs st)) ch = chans (fst st) ch"
  by (induction srvs arbitrary: st) (simp_all add: full_stays_one)

lemma collect_one_cache:
  "Cache x s \<in> set (snd (collect_one env srv st)) \<longleftrightarrow>
     Cache x s \<in> set (snd st)
     \<or> (x = info_id srv \<and> fetchStats env (info_id srv) (info_containerID srv) = Inr s)"
proof -
  from collect_one_events[of env srv st] obtain new where
    "snd (collect_one env srv st) = snd st @ new"
    "\<forall>x s. Cache x s \<in> set new \<longleftrightarrow>
        x = info_id srv \<and> fetchStats env (info_id srv) (info_containerID srv) = Inr s"
    by blast
  then show ?thesis by auto
qed

lemma collect_servers_cache_others:
  "sid \<notin> info_id ` set srvs
     \<Longrightarrow> Cache sid s \<in> set (snd (collect_servers env srvs st)) \<longleftrightarrow> Cache sid s \<in> set (snd st)"
  by (induction srvs arbitrary: st) (auto simp: collect_one_cache)

text \<open>
  Over one tick, for a channel \<open>ch\<close> that listens to \<open>sid\<close> and to nothing else: either it
  is still empty and no sample of \<open>sid\<close> was cached, or it holds the one sample of \<open>sid\<close>
  that was.
\<close>

lemma first_sample_is_held:
  assumes "ch \<in> set (listeners (fst st) sid)"
    and "\<forall>x. x \<noteq> sid \<longrightarrow> ch \<notin> set (listeners (fst st) x)"
    and "distinct (map info_id srvs)"
    and "chans (fst st) ch = []" and "\<forall>s. Cache sid s \<notin> set (snd st)"
  shows "(chans (fst (collect_servers env srvs st)) ch = []
            \<and> (\<forall>s. Cache sid s \<notin> set (snd (collect_servers env srvs st))))
       \<or> (\<exists>s1. chans (fst (collect_servers env srvs st)) ch = [s1]
            \<and> (\<forall>s. Cache sid s \<in> set (snd (collect_servers env srvs st)) \<longleftrightarrow> s = s1))"
  using assms
proof (induction srvs arbitrary: st)
  case Nil
  then show ?case by simp
next
  case (Cons srv srvs)
  let ?st = "collect_one env srv st"
  have l: "listeners (fst ?st) = listeners (fst st)" by (rule collect_one_listeners)
  have d: "distinct (map info_id srvs)" using Cons.prems(3) by simp
  show ?case
  proof (cases "info_id srv = sid")
    case False
    then have "ch \<notin> set (listeners (fst st) (info_id srv))" using Cons.prems(2) by simp
    then have c: "chans (fst ?st) ch = []"
      using Cons.prems(4) by (simp add: collect_one_chan split: sum.splits)
    have e: "\<forall>s. Cache sid s \<notin> set (snd ?st)"
      using Cons.prems(5) False by (auto simp: collect_one_cache)
    from Cons.IH[of ?st] Cons.prems(1,2) l d c e show ?thesis by simp
  next
    case True
    show ?thesis
    proof (cases "fetchStats env (info_id srv) (info_containerID srv)")
      case (Inl err)
      then have c: "chans (fst ?st) ch = []"
        using Cons.prems(4) by (simp add: collect_one_chan)
      have e: "\<forall>s. Cache sid s \<notin> set (snd ?st)"
        using Cons.prems(5) Inl by (auto simp: collect_one_cache)
      from Cons.IH[of ?st] Cons.prems(1,2) l d c e show ?thesis by simp
    next
      case (Inr s1)
      have c: "chans (fst ?st) ch = [s1]"
        using Cons.prems(1,4) True Inr by (simp add: collect_one_chan)
      have e: "\<forall>s. Cache sid s \<in> set (snd ?st) \<longleftrightarrow> s = s1"
        using Cons.prems(5) True Inr by (auto simp: collect_one_cache)
      have n: "sid \<notin> info_id ` set srvs" using Cons.prems(3) True by auto
      have "chans (fst (collect_servers env srvs ?st)) ch = [s1]"
        using c by (simp add: full_stays)
      moreover have "\<forall>s. Cache sid s \<in> set (snd (collect_servers env srvs ?st)) \<longleftrightarrow> s = s1"
        using e by (simp add: collect_servers_cache_others[OF n])
      ultimately show ?thesis by simp
    qed
  qed
qed

text \<open>Over one tick, at a full channel every new sample of a target it listens to is dropped.\<close>

lemma full_channel_drops:
  assumes "ch \<in> set (listeners (fst st) sid)" and "chans (fst st) ch \<noteq> []"
    and "Cache sid s \<in> set (snd (collect_servers env srvs st))"
  shows "Cache sid s \<in> set (snd st) \<or> Drop ch s \<in> set (snd (collect_servers env srvs st))"
  using assms
proof (induction srvs arbitrary: st)
  case Nil
  then show ?case by simp
next
  case (Cons srv srvs)
  let ?st = "collect_one env srv st"
  have l: "ch \<in> set (listeners (fst ?st) sid)"
    using Cons.prems(1) by (simp add: collect_one_listeners)
  have f: "chans (fst ?st) ch \<noteq> []" using Cons.prems(2) by (simp add: full_stays_one)
  from Cons.IH[OF l f] Cons.prems(3)
  have "Cache sid s \<in> set (snd ?st) \<or> Drop ch s \<in> set (snd (collect_servers env srvs ?st))"
    by simp
  then show ?case
  proof
    assume "Drop ch s \<in> set (snd (collect_servers env srvs ?st))"
    then show ?thesis by simp
  next
    assume "Cache sid s \<in> set (snd ?st)"
    then have "Cache sid s \<in> set (snd st)
        \<or> (sid = info_id srv \<and> fetchStats env (info_id srv) (info_containerID srv) = Inr s)"
      by (simp add: collect_one_cache)
    then show ?thesis
    proof
      assume "Cache sid s \<in> set (snd st)"
      then show ?thesis by simp
    next
      assume a: "sid = info_id srv \<and> fetchStats env (info_id srv) (info_containerID srv) = Inr s"
      then have "Drop ch s \<in> set (snd ?st)"
        using Cons.prems(1,2) by (simp add: collect_one_fetched fanout_drop)
      moreover from collect_servers_events[of env srvs ?st]
      have "set (snd ?st) \<subseteq> set (snd (collect_servers env srvs ?st))" by auto
      ultimately show ?thesis by auto
    qed
  qed
qed

lemma scan_servers_ids: "set (map info_id (scan_servers rs)) \<subseteq> set (map srv_id rs)"
  by (induction rs) (auto split: option.splits)

lemma scan_servers_distinct:
  "distinct (map srv_id rs) \<Longrightarrow> distinct (map info_id (scan_servers rs))"
proof (induction rs)
  case Nil
  show ?case by simp
next
  case (Cons r rs)
  then show ?case using scan_servers_ids[of rs] by (auto split: option.splits)
qed

lemma collect_ok:
  assumes "\<not> query_fails env"
  shows "fst (collect env rows c) = fst (collect_servers env (scan_servers (query_running rows)) (c, []))"
    and "snd (collect env rows c) = snd (collect_servers env (scan_servers (query_running rows)) (c, []))
           @ [Cleanup] @ (if cleanup_fails env then [LogCleanup] else [])"
  using assms by (simp_all add: collect_def Let_def case_prod_beta)

lemma collect_cached_ok: "Cache sid s \<in> set (snd (collect env rows c)) \<Longrightarrow> \<not> query_fails env"
  by (auto simp: collect_def)

text \<open>
  C1, as the code has it. The send of the fan-out is non-blocking and the buffer holds
  one sample, so a full channel keeps what it holds. Take a subscriber's channel that
  is never read, and two ticks after \<open>Subscribe\<close> that each cache a new sample of the
  target, \<open>s1\<close> and then \<open>s2\<close> (the servers table having one row for an id): after the
  second tick the channel holds \<open>s1\<close> alone, receiving from it yields \<open>s1\<close>, and \<open>s2\<close> was
  dropped at the channel.
\<close>

theorem unread_channel_keeps_first_sample:
  assumes fresh: "chan_fresh c"
    and sub: "Subscribe c sid = (ch, c0)"
    and ids: "distinct (map srv_id rows1)"
    and t1: "collect env1 rows1 c0 = (c1, evs1)" and s1: "Cache sid s1 \<in> set evs1"
    and t2: "collect env2 rows2 c1 = (c2, evs2)" and s2: "Cache sid s2 \<in> set evs2"
  shows "chans c2 ch = [s1]
    \<and> receive c2 ch = Some (s1, c2\<lparr>chans := (chans c2)(ch := [])\<rparr>)
    \<and> Drop ch s2 \<in> set evs2"
proof -
  from sub have ch: "ch = next_chan c"
    and c0: "c0 = c\<lparr>chans := (chans c)(ch := []), next_chan := Suc ch,
                     listeners := (listeners c)(sid := listeners c sid @ [ch])\<rparr>"
    by (auto simp: Subscribe_def Let_def)
  have l0: "ch \<in> set (listeners c0 sid)" by (simp add: c0)
  have o0: "\<forall>x. x \<noteq> sid \<longrightarrow> ch \<notin> set (listeners c0 x)"
    using fresh by (auto simp: c0 ch chan_fresh_def list_all_iff)
  have e0: "chans c0 ch = []" by (simp add: c0)
  define srvs1 where "srvs1 = scan_servers (query_running rows1)"
  define srvs2 where "srvs2 = scan_servers (query_running rows2)"
  have q1: "\<not> query_fails env1" using collect_cached_ok[of sid s1 env1 rows1 c0] t1 s1 by simp
  have q2: "\<not> query_fails env2" using collect_cached_ok[of sid s2 env2 rows2 c1] t2 s2 by simp
  have c1: "c1 = fst (collect_servers env1 srvs1 (c0, []))"
    using collect_ok(1)[OF q1, of rows1 c0] t1 by (simp add: srvs1_def)
  have evs1: "evs1 = snd (collect_servers env1 srvs1 (c0, []))
      @ [Cleanup] @ (if cleanup_fails env1 then [LogCleanup] else [])"
    using collect_ok(2)[OF q1, of rows1 c0] t1 by (simp add: srvs1_def)
  have c2: "c2 = fst (collect_servers env2 srvs2 (c1, []))"
    using collect_ok(1)[OF q2, of rows2 c1] t2 by (simp add: srvs2_def)
  have evs2: "evs2 = snd (collect_servers env2 srvs2 (c1, []))
      @ [Cleanup] @ (if cleanup_fails env2 then [LogCleanup] else [])"
    using collect_ok(2)[OF q2, of rows2 c1] t2 by (simp add: srvs2_def)
  have "distinct (map srv_id (query_running rows1))"
    using ids by (simp add: query_running_def distinct_map_filter)
  then have d1: "distinct (map info_id srvs1)"
    unfolding srvs1_def by (rule scan_servers_distinct)
  have k1: "Cache sid s1 \<in> set (snd (collect_servers env1 srvs1 (c0, [])))"
    using s1 unfolding evs1 by auto
  have "(chans (fst (collect_servers env1 srvs1 (c0, []))) ch = []
            \<and> (\<forall>s. Cache sid s \<notin> set (snd (collect_servers env1 srvs1 (c0, [])))))
       \<or> (\<exists>s. chans (fst (collect_servers env1 srvs1 (c0, []))) ch = [s]
            \<and> (\<forall>s'. Cache sid s' \<in> set (snd (collect_servers env1 srvs1 (c0, []))) \<longleftrightarrow> s' = s))"
    using l0 o0 d1 e0 by (intro first_sample_is_held) simp_all
  with k1 have h1: "chans c1 ch = [s1]" unfolding c1 by auto
  have h2: "chans c2 ch = [s1]"
    unfolding c2 using h1 full_stays[of "(c1, [])" ch env2 srvs2] by simp
  have l1: "ch \<in> set (listeners c1 sid)"
    unfolding c1 using l0 by (simp add: collect_servers_listeners)
  have k2: "Cache sid s2 \<in> set (snd (collect_servers env2 srvs2 (c1, [])))"
    using s2 unfolding evs2 by auto
  have "Cache sid s2 \<in> set (snd (c1, [] :: event list))
      \<or> Drop ch s2 \<in> set (snd (collect_servers env2 srvs2 (c1, [])))"
    using l1 h1 k2 by (intro full_channel_drops) simp_all
  then have dr: "Drop ch s2 \<in> set evs2" unfolding evs2 by simp
  have rc: "receive c2 ch = Some (s1, c2\<lparr>chans := (chans c2)(ch := [])\<rparr>)"
    by (simp add: receive_def h2)
  from h2 rc dr show ?thesis by blast
qed

lemma example_subscribe:
  "Subscribe NewCollector ''a'' =
     (0, NewCollector\<lparr>chans := (chans NewCollector)(0 := []), next_chan := Suc 0,
           listeners := (listeners NewCollector)(''a'' := [0])\<rparr>)"
  by (simp add: Subscribe_def NewCollector_def)

theorem unread_channel_keeps_first_sample_witness:
  "chan_fresh NewCollector \<and> distinct (map srv_id example_rows)
   \<and> Cache ''a'' (example_sample 7)
        \<in> set (snd (collect (example_env 7) example_rows (snd (Subscribe NewCollector ''a''))))
   \<and> chans (fst (collect (example_env 9) example_rows
        (fst (collect (example_env 7) example_rows (snd (Subscribe NewCollector ''a''))))))
        (fst (Subscribe NewCollector ''a'')) = [example_sample 7]"
proof -
  define c0 where "c0 = snd (Subscribe NewCollector ''a'')"
  define c1 where "c1 = fst (collect (example_env 7) example_rows c0)"
  have f: "chan_fresh NewCollector" by (simp add: chan_fresh_def NewCollector_def)
  have d: "distinct (map srv_id example_rows)" by (simp add: example_rows_def)
  have a: "Cache ''a'' (example_sample 7) \<in> set (snd (collect (example_env 7) example_rows c0))"
    using collect_one_cache[of "''a''" "example_sample 7" "example_env 7"
        "\<lparr>info_id = ''a'', info_containerID = ''ca''\<rparr>" "(c0, [])"]
    by (simp add: example_collect example_fetch)
  have b: "Cache ''a'' (example_sample 9) \<in> set (snd (collect (example_env 9) example_rows c1))"
    using collect_one_cache[of "''a''" "example_sample 9" "example_env 9"
        "\<lparr>info_id = ''a'', info_containerID = ''ca''\<rparr>" "(c1, [])"]
    by (simp add: example_collect example_fetch)
  have sub: "Subscribe NewCollector ''a'' = (fst (Subscribe NewCollector ''a''), c0)"
    by (simp add: c0_def)
  have t1: "collect (example_env 7) example_rows c0
      = (c1, snd (collect (example_env 7) example_rows c0))"
    by (simp add: c1_def)
  have t2: "collect (example_env 9) example_rows c1
      = (fst (collect (example_env 9) example_rows c1), snd (collect (example_env 9) example_rows c1))"
    by simp
  from unread_channel_keeps_first_sample[OF f sub d t1 a t2 b]
  have "chans (fst (collect (example_env 9) example_rows c1)) (fst (Subscribe NewCollector ''a''))
      = [example_sample 7]"
    by simp
  then show ?thesis using f d a by (simp add: c0_def c1_def)
qed

text \<open>
  C1, as the claim has it, fails: after the two ticks of the example, with a sample of
  memory usage 1 and then one of memory usage 2, the channel that was never read
  yields the first sample, not the second.
\<close>

theorem unread_channel_does_not_yield_latest:
  "map_option fst (receive (snd example_two_ticks) (fst example_two_ticks))
     = Some (example_sample 1)
   \<and> example_sample 1 \<noteq> example_sample 2
   \<and> chans (snd example_two_ticks) (fst example_two_ticks) \<noteq> [example_sample 2]"
proof -
  define c0 where "c0 = snd (Subscribe NewCollector ''a'')"
  define c1 where "c1 = fst (collect (example_env 1) example_rows c0)"
  define c2 where "c2 = fst (collect (example_env 2) example_rows c1)"
  have s: "Subscribe NewCollector ''a'' = (0, c0)"
    by (simp add: c0_def example_subscribe)
  have e: "example_two_ticks = (0, c2)"
    by (simp add: example_two_ticks_def s case_prod_beta c1_def c2_def)
  have l0: "listeners c0 ''a'' = [0]" and h0: "chans c0 0 = []"
    by (simp_all add: c0_def Subscribe_def NewCollector_def)
  have h1: "chans c1 0 = [example_sample 1]"
    by (simp add: c1_def example_collect collect_one_chan example_fetch l0 h0)
  have l1: "listeners c1 ''a'' = [0]"
    by (simp add: c1_def example_collect collect_one_listeners l0)
  have h2: "chans c2 0 = [example_sample 1]"
    by (simp add: c2_def example_collect collect_one_chan example_fetch l1 h1)
  have n: "example_sample 1 \<noteq> example_sample 2" by (simp add: example_sample_def)
  from h2 n show ?thesis by (simp add: e receive_def)
qed

section \<open>The scheduler: results\<close>

lemma update_server_status_ids:
  "map srv_id (servers (update_server_status status t sid d)) = map srv_id (servers d)"
  by (simp add: update_server_status_def)


lemma update_server_status_row:
  assumes "r \<in> set (servers (update_server_status status t sid d))" and "srv_id r = sid"
  shows "srv_status r = status \<and> srv_updated_at r = Some t"
proof -
  from assms(1) obtain r0 where r0: "r0 \<in> set (servers d)"
    and r: "r = (if srv_id r0 = sid then r0\<lparr>srv_status := status, srv_updated_at := Some t\<rparr> else r0)"
    unfolding update_server_status_def by force
  show ?thesis
  proof (cases "srv_id r0 = sid")
    case True
    with r show ?thesis by simp
  next
    case False
    with r assms(2) show ?thesis by simp
  qed
qed

lemma record_status_ok:
  "db (record_status env status sid None st)
     = update_server_status status (fst (Now env (world st))) sid (db st)"
  by (simp add: record_status_def case_prod_beta)



lemma record_status_failed: "record_status env status sid (Some e) st = st"
  by (simp add: record_status_def)

lemma log_failed_db: "db (log_failed act sid err st) = db st"
  by (cases err) (simp_all add: log_failed_def)

lemma log_failed_logs:
  "logs (log_failed act sid (Some e) st) = logs st @ [LogFailed act sid e]"
  "logs (log_failed act sid None st) = logs st"
  by (simp_all add: log_failed_def)

lemma execute_start:
  "execute env ''start'' sid cid st =
     log_failed ''start'' sid (fst (StartContainer env cid (world st)))
       (record_status env ''running'' sid (fst (StartContainer env cid (world st)))
          (st\<lparr>world := snd (StartContainer env cid (world st))\<rparr>))"
  by (simp add: execute_def case_prod_beta)

lemma execute_stop:
  "execute env ''stop'' sid cid st =
     log_failed ''stop'' sid (fst (StopContainer env cid (world st)))
       (record_status env ''exited'' sid (fst (StopContainer env cid (world st)))
          (st\<lparr>world := snd (StopContainer env cid (world st))\<rparr>))"
  by (simp add: execute_def case_prod_beta)

lemma execute_restart:
  "execute env ''restart'' sid cid st =
     log_failed ''restart'' sid (fst (RestartContainer env cid (world st)))
       (record_status env ''running'' sid (fst (RestartContainer env cid (world st)))
          (st\<lparr>world := snd (RestartContainer env cid (world st))\<rparr>))"
  by (simp add: execute_def case_prod_beta)


text \<open>
  C9. For \<open>start\<close>, \<open>stop\<close> and \<open>restart\<close>: when the lifecycle call succeeds, the database
  after \<open>execute\<close> is the one before with the UPDATE applied, which sets the status of
  the server to \<open>running\<close>, \<open>exited\<close> and \<open>running\<close> respectively (and stamps
  \<open>updated_at\<close>); when the call returns an error, the database is the one before, and
  the failure is logged.
\<close>

theorem status_recorded_iff_lifecycle_succeeds:
  "(fst (StartContainer env cid (world st)) = None \<longrightarrow>
      db (execute env ''start'' sid cid st)
        = update_server_status ''running''
            (fst (Now env (snd (StartContainer env cid (world st))))) sid (db st))
   \<and> (\<forall>e. fst (StartContainer env cid (world st)) = Some e \<longrightarrow>
      db (execute env ''start'' sid cid st) = db st
      \<and> logs (execute env ''start'' sid cid st) = logs st @ [LogFailed ''start'' sid e])
   \<and> (fst (StopContainer env cid (world st)) = None \<longrightarrow>
      db (execute env ''stop'' sid cid st)
        = update_server_status ''exited''
            (fst (Now env (snd (StopContainer env cid (world st))))) sid (db st))
   \<and> (\<forall>e. fst (StopContainer env cid (world st)) = Some e \<longrightarrow>
      db (execute env ''stop'' sid cid st) = db st
      \<and> logs (execute env ''stop'' sid cid st) = logs st @ [LogFailed ''stop'' sid e])
   \<and> (fst (RestartContainer env cid (world st)) = None \<longrightarrow>
      db (execute env ''restart'' sid cid st)
        = update_server_status ''running''
            (fst (Now env (snd (RestartContainer env cid (world st))))) sid (db st))
   \<and> (\<forall>e. fst (RestartContainer env cid (world st)) = Some e \<longrightarrow>
      db (execute env ''restart'' sid cid st) = db st
      \<and> logs (execute env ''restart'' sid cid st) = logs st @ [LogFailed ''restart'' sid e])
   \<and> (\<forall>status t d. map srv_id (servers (update_server_status status t sid d)) = map srv_id (servers d)
        \<and> (\<forall>r\<in>set (servers (update_server_status status t sid d)).
              srv_id r = sid \<longrightarrow> srv_status r = status))"
proof -
  have a: "fst (StartContainer env cid (world st)) = None \<longrightarrow>
      db (execute env ''start'' sid cid st)
        = update_server_status ''running''
            (fst (Now env (snd (StartContainer env cid (world st))))) sid (db st)"
    by (simp add: execute_start log_failed_db record_status_ok)
  have b: "\<forall>e. fst (StartContainer env cid (world st)) = Some e \<longrightarrow>
      db (execute env ''start'' sid cid st) = db st
      \<and> logs (execute env ''start'' sid cid st) = logs st @ [LogFailed ''start'' sid e]"
    by (simp add: execute_start log_failed_db log_failed_logs record_status_failed)
  have c: "fst (StopContainer env cid (world st)) = None \<longrightarrow>
      db (execute env ''stop'' sid cid st)
        = update_server_status ''exited''
            (fst (Now env (snd (StopContainer env cid (world st))))) sid (db st)"
    by (simp add: execute_stop log_failed_db record_status_ok)
  have d: "\<forall>e. fst (StopContainer env cid (world st)) = Some e \<longrightarrow>
      db (execute env ''stop'' sid cid st) = db st
      \<and> logs (execute env ''stop'' sid cid st) = logs st @ [LogFailed ''stop'' sid e]"
    by (simp add: execute_stop log_failed_db log_failed_logs record_status_failed)
  have e: "fst (RestartContainer env cid (world st)) = None \<longrightarrow>
      db (execute env ''restart'' sid cid st)
        = update_server_status ''running''
            (fst (Now env (snd (RestartContainer env cid (world st))))) sid (db st)"
    by (simp add: execute_restart log_failed_db record_status_ok)
  have f: "\<forall>e. fst (RestartContainer env cid (world st)) = Some e \<longrightarrow>
      db (execute env ''restart'' sid cid st) = db st
      \<and> logs (execute env ''restart'' sid cid st) = logs st @ [LogFailed ''restart'' sid e]"
    by (simp add: execute_restart log_failed_db log_failed_logs record_status_failed)
  have g: "\<forall>status t d. map srv_id (servers (update_server_status status t sid d)) = map srv_id (servers d)
        \<and> (\<forall>r\<in>set (servers (update_server_status status t sid d)).
              srv_id r = sid \<longrightarrow> srv_status r = status)"
    using update_server_status_row[of _ _ _ sid] by (simp add: update_server_status_ids)
  from a b c d e f g show ?thesis by (intro conjI)
qed

lemma example_sched_calls:
  "StartContainer example_sched_env cid w = example_call cid w"
  "Now example_sched_env w = (example_time, w)"
  "QueryFails example_sched_env w = (False, w)"
  by (simp_all add: example_sched_env_def)

theorem status_recorded_iff_lifecycle_succeeds_witness:
  "fst (StartContainer example_sched_env ''up'' (world (example_state ''up''))) = None
   \<and> map srv_status (servers (db (execute example_sched_env ''start'' ''a'' ''up''
         (example_state ''up'')))) = [''running'']
   \<and> fst (StartContainer example_sched_env ''down'' (world (example_state ''down'')))
        = Some ''no such container''
   \<and> map srv_status (servers (db (execute example_sched_env ''start'' ''a'' ''down''
         (example_state ''down'')))) = [''exited'']"
proof -
  note t = status_recorded_iff_lifecycle_succeeds[of example_sched_env]
  have u: "fst (StartContainer example_sched_env ''up'' (world (example_state ''up''))) = None"
    by (simp add: example_sched_calls example_call_def)
  have d: "fst (StartContainer example_sched_env ''down'' (world (example_state ''down'')))
      = Some ''no such container''"
    by (simp add: example_sched_calls example_call_def)
  from t[of "''up''" "example_state ''up''" "''a''"] u
  have "db (execute example_sched_env ''start'' ''a'' ''up'' (example_state ''up''))
      = update_server_status ''running''
          (fst (Now example_sched_env (snd (StartContainer example_sched_env ''up''
             (world (example_state ''up'')))))) ''a'' (db (example_state ''up''))"
    by blast
  then have 1: "map srv_status (servers (db (execute example_sched_env ''start'' ''a'' ''up''
         (example_state ''up'')))) = [''running'']"
    by (simp add: update_server_status_def example_state_def example_db_def)
  from t[of "''down''" "example_state ''down''" "''a''"] d
  have "db (execute example_sched_env ''start'' ''a'' ''down'' (example_state ''down''))
      = db (example_state ''down'')"
    by blast
  then have 2: "map srv_status (servers (db (execute example_sched_env ''start'' ''a'' ''down''
         (example_state ''down'')))) = [''exited'']"
    by (simp add: example_state_def example_db_def)
  from u d 1 2 show ?thesis by (intro conjI)
qed

subsection \<open>One evaluation pass\<close>




















subsection \<open>Passes that leave a matching schedule unstamped\<close>







section \<open>The console bridge: results\<close>

lemma ReadFull_prefix: "length h = n \<Longrightarrow> ReadFull e (h @ rest) n = Inr (h, rest)"
  by (simp add: ReadFull_def)

lemma ReadFull_short:
  "length bs < n \<Longrightarrow> ReadFull e bs n
     = Inl (if e = ReadFails then OtherError else if bs = [] then EOF else ErrUnexpectedEOF)"
  by (simp add: ReadFull_def)

text \<open>One turn of the loop on a stream that starts with a whole frame.\<close>

lemma pump_frame:
  assumes "well_framed (h, p)"
  shows "pump ok e (h @ p @ rest) sent =
     (if p = [] then pump ok e rest sent
      else if ok (length sent) then pump ok e rest (sent @ [p])
      else (sent, WriteFailed))"
proof -
  from assms have h: "length h = 8" and z: "unat (Uint32 (drop 4 h)) = length p"
    by (simp_all add: well_framed_def)
  have r: "ReadFull e (h @ p @ rest) 8 = Inr (h, p @ rest)"
    using h by (rule ReadFull_prefix)
  have q: "ReadFull e (p @ rest) (length p) = Inr (p, rest)"
    by (rule ReadFull_prefix) simp
  show ?thesis
    by (subst pump.simps) (simp add: r z q Let_def)
qed

lemma pump_frames:
  assumes "list_all well_framed fs" and "\<forall>k. ok k"
  shows "pump ok e (frame_bytes fs @ rest) sent = pump ok e rest (sent @ payloads fs)"
  using assms(1)
proof (induction fs arbitrary: sent)
  case Nil
  show ?case by (simp add: frame_bytes_def payloads_def)
next
  case (Cons f fs)
  obtain h p where f: "f = (h, p)" by (cases f)
  from Cons.prems f have w: "well_framed (h, p)" and ws: "list_all well_framed fs" by simp_all
  have b: "frame_bytes (f # fs) @ rest = h @ p @ (frame_bytes fs @ rest)"
    by (simp add: frame_bytes_def f)
  show ?case
  proof (cases "p = []")
    case True
    have "pump ok e (frame_bytes (f # fs) @ rest) sent = pump ok e (frame_bytes fs @ rest) sent"
      unfolding b using True pump_frame[OF w, of ok e "frame_bytes fs @ rest" sent] by simp
    also have "\<dots> = pump ok e rest (sent @ payloads fs)" by (rule Cons.IH[OF ws])
    also have "payloads fs = payloads (f # fs)" using True by (simp add: payloads_def f)
    finally show ?thesis .
  next
    case False
    have "pump ok e (frame_bytes (f # fs) @ rest) sent
        = pump ok e (frame_bytes fs @ rest) (sent @ [p])"
      unfolding b using False assms(2) pump_frame[OF w, of ok e "frame_bytes fs @ rest" sent]
      by simp
    also have "\<dots> = pump ok e rest ((sent @ [p]) @ payloads fs)" by (rule Cons.IH[OF ws])
    also have "(sent @ [p]) @ payloads fs = sent @ payloads (f # fs)"
      using False by (simp add: payloads_def f)
    finally show ?thesis .
  qed
qed

lemma pump_end_of_stream: "pump ok EndOfStream [] sent = (sent, Clean)"
  by (subst pump.simps) (simp add: ReadFull_def)

lemma pump_short_header:
  "length rest < 8 \<Longrightarrow> rest \<noteq> [] \<or> e = ReadFails \<Longrightarrow> pump ok e rest sent = (sent, LogHeaderError)"
  by (subst pump.simps) (auto simp: ReadFull_short)

text \<open>
  C6. On a stream made of whole frames, each an 8-byte header whose last four bytes give,
  big-endian, the length of the payload that follows, and with every write to the
  client succeeding, the pump forwards exactly the non-empty payloads, in the order of
  the stream, one message each and no header byte, and ends silently at the end of the
  stream. When fewer than eight bytes follow the last frame, or the stream ends with a
  read error, the pump forwards the same messages and ends with a logged header read
  error. The stream of the example yields \<open>hello\<close> and then \<open>err\<close>.
\<close>

theorem pump_forwards_payloads_in_order:
  assumes "list_all well_framed fs" and "\<forall>k. ok k"
  shows "pump ok EndOfStream (frame_bytes fs) [] = (payloads fs, Clean)
    \<and> (0 < length rest \<and> length rest < 8
         \<longrightarrow> pump ok e (frame_bytes fs @ rest) [] = (payloads fs, LogHeaderError))
    \<and> pump ok ReadFails (frame_bytes fs) [] = (payloads fs, LogHeaderError)
    \<and> pump (\<lambda>k. True) EndOfStream
         ([1, 0, 0, 0, 0, 0, 0, 5] @ bytes_of ''hello'' @ [2, 0, 0, 0, 0, 0, 0, 3] @ bytes_of ''err'') []
        = ([bytes_of ''hello'', bytes_of ''err''], Clean)"
proof -
  have 1: "pump ok EndOfStream (frame_bytes fs) [] = (payloads fs, Clean)"
    using pump_frames[OF assms, of EndOfStream "[]" "[]"] by (simp add: pump_end_of_stream)
  have 2: "0 < length rest \<and> length rest < 8
         \<longrightarrow> pump ok e (frame_bytes fs @ rest) [] = (payloads fs, LogHeaderError)"
    using pump_frames[OF assms, of e rest "[]"] by (simp add: pump_short_header)
  have 3: "pump ok ReadFails (frame_bytes fs) [] = (payloads fs, LogHeaderError)"
    using pump_frames[OF assms, of ReadFails "[]" "[]"] by (simp add: pump_short_header)
  let ?fs = "[([1, 0, 0, 0, 0, 0, 0, 5], bytes_of ''hello''),
              ([2, 0, 0, 0, 0, 0, 0, 3], bytes_of ''err'')]"
  have w: "list_all well_framed ?fs"
    by (simp add: well_framed_def Uint32_def bytes_of_def)
  have "pump (\<lambda>k. True) EndOfStream (frame_bytes ?fs @ []) [] = pump (\<lambda>k. True) EndOfStream [] ([] @ payloads ?fs)"
    by (rule pump_frames[OF w]) simp
  then have 4: "pump (\<lambda>k. True) EndOfStream
         ([1, 0, 0, 0, 0, 0, 0, 5] @ bytes_of ''hello'' @ [2, 0, 0, 0, 0, 0, 0, 3] @ bytes_of ''err'') []
        = ([bytes_of ''hello'', bytes_of ''err''], Clean)"
    by (simp add: frame_bytes_def payloads_def pump_end_of_stream bytes_of_def)
  from 1 2 3 4 show ?thesis by (intro conjI)
qed

theorem pump_forwards_payloads_in_order_witness:
  "list_all well_framed [([1, 0, 0, 0, 0, 0, 0, 2], [104, 105]), ([2, 0, 0, 0, 0, 0, 0, 0], [])]
   \<and> pump (\<lambda>k. True) EndOfStream [1, 0, 0, 0, 0, 0, 0, 2, 104, 105, 2, 0, 0, 0, 0, 0, 0, 0] []
        = ([[104, 105]], Clean)
   \<and> pump (\<lambda>k. True) EndOfStream [1, 0, 0, 0, 0, 0, 0, 2, 104, 105, 2, 0, 0, 0, 0, 0, 0, 0, 1, 0, 0] []
        = ([[104, 105]], LogHeaderError)"
proof -
  let ?fs = "[([1, 0, 0, 0, 0, 0, 0, 2], [104, 105]), ([2, 0, 0, 0, 0, 0, 0, 0], [])]
    :: (byte list \<times> byte list) list"
  have w: "list_all well_framed ?fs" by (simp add: well_framed_def Uint32_def)
  have a: "\<forall>k::nat. (\<lambda>k. True) k" by simp
  note t = pump_forwards_payloads_in_order[OF w a, of "[1, 0, 0]" EndOfStream]
  from t have "pump (\<lambda>k. True) EndOfStream (frame_bytes ?fs) [] = (payloads ?fs, Clean)"
    by (rule conjunct1)
  then have 1: "pump (\<lambda>k. True) EndOfStream
      [1, 0, 0, 0, 0, 0, 0, 2, 104, 105, 2, 0, 0, 0, 0, 0, 0, 0] [] = ([[104, 105]], Clean)"
    by (simp add: frame_bytes_def payloads_def)
  from t have "pump (\<lambda>k. True) EndOfStream (frame_bytes ?fs @ [1, 0, 0]) []
      = (payloads ?fs, LogHeaderError)"
    by simp
  then have 2: "pump (\<lambda>k. True) EndOfStream
      [1, 0, 0, 0, 0, 0, 0, 2, 104, 105, 2, 0, 0, 0, 0, 0, 0, 0, 1, 0, 0] []
        = ([[104, 105]], LogHeaderError)"
    by (simp add: frame_bytes_def payloads_def)
  from w 1 2 show ?thesis by (intro conjI)
qed

end
